theory Spec2Isabelle
  imports Main "HOL-Library.AList" "HOL-Library.Sublist"
begin

section \<open>Errors\<close>

text \<open>
  Identities of dependencies are Go strings. A Go \<^verbatim>\<open>error\<close> is one of: the
  distinguished \<^verbatim>\<open>*cyclicError\<close> of the dependency package (carrying the two
  identities of the rejected edge), a plain error with a message (what
  \<^verbatim>\<open>errors.Errorf\<close> builds, and what every collaborator outside the package
  returns: \<^verbatim>\<open>cyclicError\<close> is unexported, so no collaborator can build one),
  an error wrapped by \<^verbatim>\<open>errors.Wrap(err, msg)\<close>, or a run-time panic.
\<close>

type_synonym ident = string

datatype error =
    CyclicError ident ident
  | Err string
  | Wrap error string
  | Panic string

text \<open>The type assertion \<^verbatim>\<open>err.(*cyclicError)\<close>: it looks at the outermost value only.\<close>

fun isCyclicError :: "error \<Rightarrow> bool" where
  "isCyclicError (CyclicError a b) = True"
| "isCyclicError (Err m) = False"
| "isCyclicError (Wrap e m) = False"
| "isCyclicError (Panic m) = False"

text \<open>
  Modelled from the spec: the \<^verbatim>\<open>Error\<close> method of the cycle error is not among the sources;
  the spec asks that its message names the participating identities. For the other errors
  the message is the one of the library: \<^verbatim>\<open>errors.Wrap\<close> puts its message and a colon in
  front of the message of the cause.
\<close>

fun Error :: "error \<Rightarrow> string" where
  "Error (Err m) = m"
| "Error (Wrap e m) = m @ '': '' @ Error e"
| "Error (CyclicError a b) = ''cyclic dependency: '' @ a @ '' -> '' @ b"
| "Error (Panic m) = ''panic: '' @ m"

section \<open>Configuration data\<close>

text \<open>
  A \<^verbatim>\<open>*generated.Config\<close> that is shared is an address: two holders of the same
  address hold the same object. The generated configuration that a dependency loads for
  itself is held by value.
\<close>

type_synonym cache_ptr = nat

type_synonym CacheConfig = "string list"

record GeneratedConfig =
  ActiveProfile :: string
  Stored :: "(string \<times> CacheConfig) list"

record ConfigOptions =
  Profile :: string
  GeneratedConfig :: cache_ptr
  ConfigPath :: string
  BasePath :: string

text \<open>
  A cluster client is an object (its handle tells two clients apart) bound to a cluster
  context and a namespace.
\<close>

record Client =
  handle :: nat
  CurrentContext :: string
  Namespace :: string

text \<open>
  The declarations of package \<^verbatim>\<open>latest\<close> are not among the sources; the records hold
  the fields \<^verbatim>\<open>resolver.go\<close> reads or writes. A source descriptor is a remote reference
  or a local path, with an optional configuration file name. Pointers to booleans are
  options. The development section is opaque (a list of settings), the zero value
  \<^verbatim>\<open>&latest.DevConfig{}\<close> is the empty one.
\<close>

record SourceConfig =
  Git :: string
  Path :: string
  ConfigName :: string

record DependencyConfig =
  Source :: SourceConfig
  Profile :: string
  SkipBuild :: "bool option"
  IgnoreDependencies :: "bool option"
  Namespace :: string

datatype DevConfig = DevConfig "string list"

definition emptyDevConfig :: DevConfig where
  "emptyDevConfig = DevConfig []"

type_synonym ImageConfig = string

record Config =
  Dependencies :: "DependencyConfig list"
  Dev :: "DevConfig option"
  Images :: "string \<rightharpoonup> ImageConfig"

text \<open>
  Loaders and the docker client are opaque handles. The registry client and the controllers
  are the values their constructors were given.
\<close>

type_synonym KubeLoader = nat

type_synonym DockerClient = nat

datatype RegistryClient = RegistryClient Config "Client option" DockerClient

datatype Controller = Controller Config CacheConfig "Client option"

datatype GeneratedLoader = GeneratedLoader string

record Dependency =
  ID :: ident
  LocalPath :: string
  Config :: Config
  Commands :: "string list"
  GeneratedConfig :: GeneratedConfig
  DependencyConfig :: DependencyConfig
  DependencyCache :: cache_ptr
  kubeClient :: "Client option"
  registryClient :: RegistryClient
  buildController :: Controller
  deployController :: Controller
  generatedSaver :: GeneratedLoader

section \<open>The graph store\<close>

text \<open>
  Modelled from the spec: the graph (\<^verbatim>\<open>graph\<close>, \<^verbatim>\<open>node\<close>, \<^verbatim>\<open>newGraph\<close>,
  \<^verbatim>\<open>insertNodeAt\<close>, \<^verbatim>\<open>addEdge\<close>, \<^verbatim>\<open>removeNode\<close>, \<^verbatim>\<open>getNextLeaf\<close>) is used by
  \<^verbatim>\<open>resolver.go\<close> but its file is not among the sources. Following the spec's data
  model, the graph is an arena: a mapping from identity to node, kept as an association
  list with one entry per identity, and the identity of the root. A node holds its payload
  (none for the root, a Dependency otherwise) and the ordered identities it points to.
\<close>

record node =
  Data :: "Dependency option"
  children :: "ident list"

record graph =
  Nodes :: "(ident \<times> node) list"
  Root :: ident

definition newNode :: "Dependency option \<Rightarrow> node" where
  "newNode data = \<lparr>Data = data, children = []\<rparr>"

definition newGraph :: "ident \<Rightarrow> graph" where
  "newGraph rootID = \<lparr>Nodes = [(rootID, newNode None)], Root = rootID\<rparr>"

definition lookup :: "graph \<Rightarrow> ident \<Rightarrow> node option" where
  "lookup g k = map_of (Nodes g) k"

definition keys :: "graph \<Rightarrow> ident set" where
  "keys g = set (map fst (Nodes g))"

text \<open>
  Modelled from the spec: the outgoing edges of a node to nodes still present in the graph
  (the glossary's current leaf has none).
\<close>

definition presentChildren :: "graph \<Rightarrow> ident \<Rightarrow> ident list" where
  "presentChildren g k =
     (case lookup g k of
        None \<Rightarrow> []
      | Some nd \<Rightarrow> filter (\<lambda>c. lookup g c \<noteq> None) (children nd))"

text \<open>
  Modelled from the spec: both searches of the graph store are traversals in declaration
  order of the siblings. \<open>dfsFind g P visited todo\<close> is the depth-first traversal: it
  returns the first node it encounters that satisfies \<open>P\<close>, and \<open>None\<close> when the traversal
  ends without one. Nodes already visited and identities absent from the graph are skipped.
\<close>

function dfsFind :: "graph \<Rightarrow> (ident \<Rightarrow> bool) \<Rightarrow> ident list \<Rightarrow> ident list \<Rightarrow> ident option" where
  "dfsFind g P visited [] = None"
| "dfsFind g P visited (x # todo) =
     (if x \<in> set visited \<or> lookup g x = None then dfsFind g P visited todo
      else if P x then Some x
      else dfsFind g P (x # visited) (presentChildren g x @ todo))"
  by pat_completeness auto
termination
proof (relation "measures [\<lambda>(g, P, visited, todo). card (keys g - set visited),
                           \<lambda>(g, P, visited, todo). length todo]")
  show "wf (measures [\<lambda>(g, P, visited, todo). card (keys g - set visited),
                      \<lambda>(g, P, visited, todo). length todo])"
    by simp
next
  fix g :: graph and P :: "ident \<Rightarrow> bool" and visited todo :: "ident list" and x :: ident
  show "((g, P, visited, todo), (g, P, visited, x # todo))
        \<in> measures [\<lambda>(g, P, visited, todo). card (keys g - set visited),
                     \<lambda>(g, P, visited, todo). length todo]"
    by simp
next
  fix g :: graph and P :: "ident \<Rightarrow> bool" and visited todo :: "ident list" and x :: ident
  assume a: "\<not> (x \<in> set visited \<or> lookup g x = None)"
  then have "x \<in> keys g"
    by (auto simp: lookup_def keys_def dest: map_of_SomeD intro: rev_image_eqI)
  with a have "keys g - set (x # visited) \<subset> keys g - set visited"
    by auto
  then have "card (keys g - set (x # visited)) < card (keys g - set visited)"
    by (intro psubset_card_mono) (auto simp: keys_def)
  then show "((g, P, x # visited, presentChildren g x @ todo), (g, P, visited, x # todo))
        \<in> measures [\<lambda>(g, P, visited, todo). card (keys g - set visited),
                     \<lambda>(g, P, visited, todo). length todo]"
    by simp
qed

declare dfsFind.simps [simp del]

text \<open>
  Modelled from the spec: \<^verbatim>\<open>getNextLeaf(from)\<close> is not among the sources. It returns the
  first node encountered from \<open>from\<close>, other than the root,
  with no outgoing edge to a node still present; the root when there is none.
\<close>

definition isLeaf :: "graph \<Rightarrow> ident \<Rightarrow> bool" where
  "isLeaf g x = (x \<noteq> Root g \<and> presentChildren g x = [])"

definition getNextLeaf :: "graph \<Rightarrow> ident \<Rightarrow> ident" where
  "getNextLeaf g start =
     (case dfsFind g (isLeaf g) [] [start] of None \<Rightarrow> Root g | Some x \<Rightarrow> x)"

text \<open>
  Modelled from the spec: the cycle guard is not among the sources. It is a reachability
  search from \<open>a\<close> looking for \<open>b\<close> over the existing edges.
\<close>

definition hasPath :: "graph \<Rightarrow> ident \<Rightarrow> ident \<Rightarrow> bool" where
  "hasPath g a b = (dfsFind g (\<lambda>x. x = b) [] [a] \<noteq> None)"

text \<open>
  Modelled from the spec: \<^verbatim>\<open>addEdge(fromID, toID)\<close> is not among the sources. It returns a
  not-found error when either identity is absent, the cycle
  error when \<open>toID\<close> already has a path to \<open>fromID\<close>; otherwise \<open>toID\<close> joins the children
  of \<open>fromID\<close> (an ordered set: an edge that exists is not added twice). The resolver calls
  it with these two arguments only.
\<close>

definition addEdge :: "graph \<Rightarrow> ident \<Rightarrow> ident \<Rightarrow> error + graph" where
  "addEdge g fromID toID =
     (case lookup g fromID of
        None \<Rightarrow> Inl (Err (''fromID '' @ fromID @ '' does not exist''))
      | Some from \<Rightarrow>
          (case lookup g toID of
             None \<Rightarrow> Inl (Err (''toID '' @ toID @ '' does not exist''))
           | Some to \<Rightarrow>
               if hasPath g toID fromID then Inl (CyclicError fromID toID)
               else if toID \<in> set (children from) then Inr g
               else Inr (g\<lparr>Nodes :=
                      AList.update fromID (from\<lparr>children := children from @ [toID]\<rparr>) (Nodes g)\<rparr>)))"

text \<open>
  Modelled from the spec: \<^verbatim>\<open>insertNodeAt(parentID, newID, payload)\<close> is not among the
  sources. It fails if the parent does not exist or the
  new identity already exists; on success creates the node and adds the edge from the
  parent to it.
\<close>

definition insertNodeAt :: "graph \<Rightarrow> ident \<Rightarrow> ident \<Rightarrow> Dependency \<Rightarrow> error + graph" where
  "insertNodeAt g parentID newID payload =
     (case lookup g parentID of
        None \<Rightarrow> Inl (Err (''Parent '' @ parentID @ '' does not exist''))
      | Some parent \<Rightarrow>
          if lookup g newID \<noteq> None then Inl (Err (''Node '' @ newID @ '' does already exist''))
          else Inr (g\<lparr>Nodes :=
                 AList.update parentID (parent\<lparr>children := children parent @ [newID]\<rparr>) (Nodes g)
                 @ [(newID, newNode (Some payload))]\<rparr>))"

text \<open>
  Modelled from the spec: \<^verbatim>\<open>removeNode(id)\<close> is not among the sources. Removal is only
  valid for current leaves. The spec's sentence on when it fails is read with its own
  parenthesis and glossary (a leaf has no outgoing edge to a node still present): it fails
  for the root and for a node that is not a current leaf; on success it deletes the node
  and all edges pointing to it.
\<close>

definition removeNode :: "graph \<Rightarrow> ident \<Rightarrow> error + graph" where
  "removeNode g k =
     (if k = Root g then Inl (Err (''Cannot remove the root '' @ k))
      else if presentChildren g k \<noteq> [] then
        Inl (Err (''Cannot remove '' @ k @ '' from graph because it has still children''))
      else Inr (g\<lparr>Nodes :=
             map (\<lambda>(i, nd). (i, nd\<lparr>children := removeAll k (children nd)\<rparr>))
               (AList.delete k (Nodes g))\<rparr>))"

section \<open>The collaborators\<close>

text \<open>
  What the resolver calls outside its own file: the identity and download helpers, the
  configuration loader, the generated-configuration loader and saver, the client
  factories, the working directory and the path functions. Each is a function of its
  arguments; a failure is \<open>Inl\<close> of its message. \<open>DefaultConfigPath\<close> and
  \<open>GeneratedConfigPath\<close> are the two constants the resolver joins to a local path.
\<close>

record env =
  Getwd :: "string + string"
  GetDependencyID :: "string \<Rightarrow> SourceConfig \<Rightarrow> string \<Rightarrow> ident"
  DownloadDependency :: "string \<Rightarrow> SourceConfig \<Rightarrow> string \<Rightarrow> bool \<Rightarrow> string + (ident \<times> string)"
  Clone :: "ConfigOptions \<Rightarrow> string + ConfigOptions"
  Join :: "string \<Rightarrow> string \<Rightarrow> string"
  DefaultConfigPath :: string
  GeneratedConfigPath :: string
  LoaderConfigPath :: "ConfigOptions \<Rightarrow> string"
  LoadWithoutProfile :: "ConfigOptions \<Rightarrow> string + Config"
  Load :: "ConfigOptions \<Rightarrow> string + Config"
  ParseCommands :: "ConfigOptions \<Rightarrow> string + string list"
  LoadFromPath :: "string \<Rightarrow> string \<Rightarrow> string + GeneratedConfig"
  InitDevSpaceConfig :: "GeneratedConfig \<Rightarrow> string \<Rightarrow> GeneratedConfig"
  GetActive :: "GeneratedConfig \<Rightarrow> CacheConfig"
  NewClientFromContext :: "string \<Rightarrow> string \<Rightarrow> bool \<Rightarrow> KubeLoader \<Rightarrow> string + Client"
  NewDockerClient :: "string + DockerClient"
  Save :: "cache_ptr \<Rightarrow> string option"

section \<open>The resolver\<close>

record resolver =
  DependencyGraph :: graph
  BasePath :: string
  BaseConfig :: Config
  BaseCache :: cache_ptr
  ConfigOptions :: ConfigOptions
  AllowCyclic :: bool
  kubeLoader :: KubeLoader
  client :: "Client option"

text \<open>
  A run of the resolver is the resolver together with the trace of the calls it has made
  so far to the materializer, to \<^verbatim>\<open>addEdge\<close> (with the error it returned, if any) and to
  the saver of the base cache. The trace is only appended to: no branch reads it.
\<close>

datatype call =
    ResolveDependencyCall ident
  | AddEdgeCall ident ident "error option"
  | SaveCall cache_ptr

record run = resolver +
  calls :: "call list"

subsection \<open>The materializer\<close>

text \<open>
  \<^verbatim>\<open>resolveDependency\<close> (resolver.go, lines 174-275). It reads the resolver and changes
  none of its fields. Four stretches of its body are named, to be spoken of on their own:
  the options handed to the configuration loader (lines 186-197), the choice of the load
  (lines 200-206), the overrides of the loaded configuration (lines 217-223) and the
  client of the dependency (lines 235-246).
\<close>

definition clonedOptions ::
  "env \<Rightarrow> 'a resolver_scheme \<Rightarrow> DependencyConfig \<Rightarrow> string \<Rightarrow> ConfigOptions \<Rightarrow> ConfigOptions" where
  "clonedOptions E r dependency localPath cloned =
     (let configPath =
            (if ConfigName (Source dependency) \<noteq> []
             then Join E localPath (ConfigName (Source dependency))
             else Join E localPath (DefaultConfigPath E))
      in cloned\<lparr>ConfigOptions.Profile := Profile dependency,
                ConfigOptions.GeneratedConfig := BaseCache r,
                ConfigOptions.ConfigPath := configPath,
                ConfigOptions.BasePath := LoaderConfigPath E (ConfigOptions r)\<rparr>)"

definition loadConfig :: "env \<Rightarrow> ConfigOptions \<Rightarrow> string + Config" where
  "loadConfig E cloned =
     (if ConfigOptions.Profile cloned = [] then LoadWithoutProfile E cloned else Load E cloned)"

definition overrideConfig :: "DependencyConfig \<Rightarrow> Config \<Rightarrow> Config" where
  "overrideConfig dependency dConfig =
     (if SkipBuild dependency = Some True
      then dConfig\<lparr>Dev := Some emptyDevConfig, Images := Map.empty\<rparr>
      else dConfig\<lparr>Dev := Some emptyDevConfig\<rparr>)"

definition recreateClient ::
  "env \<Rightarrow> 'a resolver_scheme \<Rightarrow> DependencyConfig \<Rightarrow> string + Client option" where
  "recreateClient E r dependency =
     (if Namespace dependency \<noteq> [] then
        (case client r of
           None \<Rightarrow>
             map_sum id Some
               (NewClientFromContext E [] (Namespace dependency) False (kubeLoader r))
         | Some c \<Rightarrow>
             map_sum id Some
               (NewClientFromContext E (CurrentContext c) (Namespace dependency) False
                  (kubeLoader r)))
      else Inr (client r))"

text \<open>
  Every early return of the source is an \<open>Inl\<close> here, in the source's order; the
  Dependency is built only after the last of them.
\<close>

definition resolveDependency ::
  "env \<Rightarrow> 'a resolver_scheme \<Rightarrow> string \<Rightarrow> DependencyConfig \<Rightarrow> bool \<Rightarrow> error + Dependency" where
  "resolveDependency E r basePath dependency update =
     (case DownloadDependency E basePath (Source dependency) (Profile dependency) update of
        Inl m \<Rightarrow> Inl (Err m)
      | Inr (depID, localPath) \<Rightarrow>
     (case Clone E (ConfigOptions r) of
        Inl m \<Rightarrow> Inl (Wrap (Err m) ''clone config options'')
      | Inr cloned0 \<Rightarrow>
     (let cloned = clonedOptions E r dependency localPath cloned0 in
     (case loadConfig E cloned of
        Inl m \<Rightarrow> Inl (Wrap (Err m) (''loading config for dependency '' @ depID))
      | Inr loaded \<Rightarrow>
     (case ParseCommands E cloned of
        Inl m \<Rightarrow> Inl (Wrap (Err m) ''parse dependency commands'')
      | Inr dCommands \<Rightarrow>
     (let dConfig = overrideConfig dependency loaded in
     (case LoadFromPath E (Profile dependency) (Join E localPath (GeneratedConfigPath E)) of
        Inl m \<Rightarrow>
          Inl (Err (''Error loading generated config for dependency '' @ depID @ '': '' @ m))
      | Inr generatedLoaded \<Rightarrow>
     (let dGeneratedConfig =
            InitDevSpaceConfig E (generatedLoaded\<lparr>ActiveProfile := Profile dependency\<rparr>)
              (Profile dependency)
      in
     (case recreateClient E r dependency of
        Inl m \<Rightarrow> Inl (Wrap (Err m) ''create new client'')
      | Inr newClient \<Rightarrow>
     (case NewDockerClient E of
        Inl m \<Rightarrow> Inl (Wrap (Err m) ''create docker client'')
      | Inr dockerClient \<Rightarrow>
          Inr \<lparr>ID = depID,
               LocalPath = localPath,
               Config = dConfig,
               Commands = dCommands,
               GeneratedConfig = dGeneratedConfig,
               DependencyConfig = dependency,
               DependencyCache = BaseCache r,
               kubeClient = newClient,
               registryClient = RegistryClient dConfig newClient dockerClient,
               buildController = Controller dConfig (GetActive E dGeneratedConfig) newClient,
               deployController = Controller dConfig (GetActive E dGeneratedConfig) newClient,
               generatedSaver = GeneratedLoader (Profile dependency)\<rparr>))))))))))"

subsection \<open>The traversal driver\<close>

text \<open>
  \<^verbatim>\<open>resolveRecursive\<close> (lines 131-172). The loop over the declarations and the nested call
  are one recursion. The declarations of a dependency come from the configuration loader,
  so nothing bounds the descent: the first argument is fuel, one unit per declaration
  processed or nested call, and the outer \<open>None\<close> is "out of fuel". Inside, the Go
  \<^verbatim>\<open>error\<close> returned is an option (\<open>None\<close> is \<^verbatim>\<open>nil\<close>), next to the run as the call
  left it.
\<close>

fun resolveRecursive ::
  "nat \<Rightarrow> env \<Rightarrow> run \<Rightarrow> string \<Rightarrow> ident \<Rightarrow> DependencyConfig list \<Rightarrow> bool
     \<Rightarrow> (error option \<times> run) option" where
  "resolveRecursive 0 E r basePath parentID dependencies update = None"
| "resolveRecursive (Suc n) E r basePath parentID [] update = Some (None, r)"
| "resolveRecursive (Suc n) E r basePath parentID (dependencyConfig # rest) update =
     (let depID = GetDependencyID E basePath (Source dependencyConfig) (Profile dependencyConfig) in
      if lookup (DependencyGraph r) depID \<noteq> None then
        (case addEdge (DependencyGraph r) parentID depID of
           Inl err \<Rightarrow>
             (let r1 = r\<lparr>calls := calls r @ [AddEdgeCall parentID depID (Some err)]\<rparr> in
              if isCyclicError err then
                (if \<not> AllowCyclic r then Some (Some err, r1)
                 else resolveRecursive n E r1 basePath parentID rest update)
              else Some (Some err, r1))
         | Inr g \<Rightarrow>
             resolveRecursive n E
               (r\<lparr>DependencyGraph := g, calls := calls r @ [AddEdgeCall parentID depID None]\<rparr>)
               basePath parentID rest update)
      else
        (let r1 = r\<lparr>calls := calls r @ [ResolveDependencyCall depID]\<rparr> in
         case resolveDependency E r1 basePath dependencyConfig update of
           Inl err \<Rightarrow> Some (Some err, r1)
         | Inr dependency \<Rightarrow>
             (case insertNodeAt (DependencyGraph r1) parentID depID dependency of
                Inl err \<Rightarrow> Some (Some (Wrap err ''insert node''), r1)
              | Inr g \<Rightarrow>
                  (let r2 = r1\<lparr>DependencyGraph := g\<rparr> in
                   if (IgnoreDependencies dependencyConfig = None
                       \<or> IgnoreDependencies dependencyConfig = Some False)
                      \<and> Dependencies (Config dependency) \<noteq> []
                   then
                     (case resolveRecursive n E r2 (LocalPath dependency) depID
                             (Dependencies (Config dependency)) update of
                        None \<Rightarrow> None
                      | Some (Some err, r3) \<Rightarrow> Some (Some err, r3)
                      | Some (None, r3) \<Rightarrow> resolveRecursive n E r3 basePath parentID rest update)
                   else resolveRecursive n E r2 basePath parentID rest update))))"

subsection \<open>The queue builder\<close>

text \<open>
  \<^verbatim>\<open>buildDependencyQueue\<close> (lines 111-129): the loop takes the next leaf from the root,
  stops when it is the root, appends its payload and removes it. The type assertion on the
  payload panics for a node without a Dependency. The graph is returned as the loop left
  it.
\<close>

function drainQueue :: "graph \<Rightarrow> Dependency list \<Rightarrow> (error + Dependency list) \<times> graph" where
  "drainQueue g retDependencies =
     (if length (Nodes g) > 1 then
        (let next = getNextLeaf g (Root g) in
         if next = Root g then (Inr retDependencies, g)
         else
           (case lookup g next of
              None \<Rightarrow> (Inl (Panic ''nil pointer dereference''), g)
            | Some nd \<Rightarrow>
                (case Data nd of
                   None \<Rightarrow> (Inl (Panic ''interface conversion''), g)
                 | Some d \<Rightarrow>
                     (case removeNode g next of
                        Inl err \<Rightarrow> (Inl err, g)
                      | Inr g' \<Rightarrow> drainQueue g' (retDependencies @ [d])))))
      else (Inr retDependencies, g))"
  by pat_completeness auto
termination
proof (relation "measure (\<lambda>(g, retDependencies). length (Nodes g))")
  show "wf (measure (\<lambda>(g, retDependencies). length (Nodes g)))"
    by simp
next
  fix g g' :: graph and retDependencies :: "Dependency list" and nxt :: ident
    and nd :: node and d :: Dependency
  assume "lookup g nxt = Some nd" and "removeNode g nxt = Inr g'"
  then have a: "(nxt, nd) \<in> set (Nodes g)"
    and b: "Nodes g' = map (\<lambda>(i, nd). (i, nd\<lparr>children := removeAll nxt (children nd)\<rparr>))
               (AList.delete nxt (Nodes g))"
    by (auto simp: lookup_def removeNode_def split: if_splits dest: map_of_SomeD)
  from a have "length (AList.delete nxt (Nodes g)) < length (Nodes g)"
    unfolding AList.delete_eq by (intro length_filter_less[of "(nxt, nd)"]) auto
  with b have "length (Nodes g') < length (Nodes g)"
    by simp
  then show "((g', retDependencies @ [d]), (g, retDependencies))
        \<in> measure (\<lambda>(g, retDependencies). length (Nodes g))"
    by simp
qed

declare drainQueue.simps [simp del]

definition buildDependencyQueue :: "graph \<Rightarrow> (error + Dependency list) \<times> graph" where
  "buildDependencyQueue g = drainQueue g []"

subsection \<open>Resolve\<close>

text \<open>
  \<^verbatim>\<open>Resolve\<close> (lines 87-109). The result is the pair the Go function returns: \<open>Inl\<close> is
  "nil list and an error", \<open>Inr\<close> is "the list and a nil error".
\<close>

definition Resolve :: "nat \<Rightarrow> env \<Rightarrow> run \<Rightarrow> bool \<Rightarrow> ((error + Dependency list) \<times> run) option" where
  "Resolve n E r update =
     (case Getwd E of
        Inl m \<Rightarrow> Some (Inl (Wrap (Err m) ''get current working directory''), r)
      | Inr currentWorkingDirectory \<Rightarrow>
          (case resolveRecursive n E r currentWorkingDirectory (Root (DependencyGraph r))
                  (Dependencies (BaseConfig r)) update of
             None \<Rightarrow> None
           | Some (Some err, r1) \<Rightarrow>
               if isCyclicError err then Some (Inl err, r1)
               else Some (Inl (Wrap err ''resolve dependencies recursive''), r1)
           | Some (None, r1) \<Rightarrow>
               (let r2 = r1\<lparr>calls := calls r1 @ [SaveCall (BaseCache r1)]\<rparr> in
                case Save E (BaseCache r1) of
                  Some m \<Rightarrow> Some (Inl (Err m), r2)
                | None \<Rightarrow>
                    (case buildDependencyQueue (DependencyGraph r2) of
                       (res, g) \<Rightarrow> Some (res, r2\<lparr>DependencyGraph := g\<rparr>)))))"

section \<open>Concrete projects\<close>

text \<open>
  A small world to run the resolver in. Every source is a remote reference, which is also
  its identity; a dependency is downloaded below \<open>/deps\<close>. Projects \<open>P\<close> and \<open>Q\<close> both
  declare \<open>R\<close> (the diamond); \<open>A\<close> declares \<open>B\<close> and \<open>B\<close> declares \<open>A\<close> (the cycle). Every
  project has a development section and one image. The resolver starts with a client bound
  to the namespace \<open>staging\<close>; the client factory returns a new object.
\<close>

definition gitSource :: "string \<Rightarrow> SourceConfig" where
  "gitSource url = \<lparr>Git = url, Path = [], ConfigName = []\<rparr>"

definition dependsOn :: "string \<Rightarrow> DependencyConfig" where
  "dependsOn url =
     \<lparr>Source = gitSource url, Profile = [], SkipBuild = None, IgnoreDependencies = None,
      Namespace = []\<rparr>"

definition exampleConfig :: "string \<Rightarrow> Config" where
  "exampleConfig path =
     \<lparr>Dependencies =
        (if path = ''/deps/P/devspace.yaml'' \<or> path = ''/deps/Q/devspace.yaml''
         then [dependsOn ''R'']
         else if path = ''/deps/A/devspace.yaml'' then [dependsOn ''B'']
         else if path = ''/deps/B/devspace.yaml'' then [dependsOn ''A'']
         else []),
      Dev = Some (DevConfig [''ports'', ''sync'']),
      Images = [''app'' \<mapsto> ''registry/app'']\<rparr>"

definition exampleEnv :: env where
  "exampleEnv =
     \<lparr>Getwd = Inr ''/work'',
      GetDependencyID = (\<lambda>basePath source profile. Git source),
      DownloadDependency =
        (\<lambda>basePath source profile update. Inr (Git source, ''/deps/'' @ Git source)),
      Clone = Inr,
      Join = (\<lambda>a b. a @ ''/'' @ b),
      DefaultConfigPath = ''devspace.yaml'',
      GeneratedConfigPath = ''.devspace/generated.yaml'',
      LoaderConfigPath = ConfigOptions.ConfigPath,
      LoadWithoutProfile = (\<lambda>opts. Inr (exampleConfig (ConfigOptions.ConfigPath opts))),
      Load = (\<lambda>opts. Inr (exampleConfig (ConfigOptions.ConfigPath opts))),
      ParseCommands = (\<lambda>opts. Inr []),
      LoadFromPath = (\<lambda>profile path. Inr \<lparr>ActiveProfile = [], Stored = []\<rparr>),
      InitDevSpaceConfig = (\<lambda>g profile. g),
      GetActive = (\<lambda>g. []),
      NewClientFromContext =
        (\<lambda>context namespace switchContext loader.
           Inr \<lparr>handle = 2, CurrentContext = context, Client.Namespace = namespace\<rparr>),
      NewDockerClient = Inr 0,
      Save = (\<lambda>cache. None)\<rparr>"

definition stagingClient :: Client where
  "stagingClient = \<lparr>handle = 1, CurrentContext = ''minikube'', Client.Namespace = ''staging''\<rparr>"

definition exampleRun :: "string list \<Rightarrow> run" where
  "exampleRun urls =
     \<lparr>DependencyGraph = newGraph ''root'',
      BasePath = [],
      BaseConfig = \<lparr>Dependencies = map dependsOn urls, Dev = None, Images = Map.empty\<rparr>,
      BaseCache = 7,
      ConfigOptions =
        \<lparr>ConfigOptions.Profile = [], ConfigOptions.GeneratedConfig = 0,
         ConfigOptions.ConfigPath = ''devspace.yaml'', ConfigOptions.BasePath = []\<rparr>,
      AllowCyclic = False,
      kubeLoader = 0,
      client = Some stagingClient,
      calls = []\<rparr>"

text \<open>Two worlds in which loading a dependency fails: its configuration, or its commands.\<close>

definition loadFailEnv :: env where
  "loadFailEnv = exampleEnv\<lparr>LoadWithoutProfile := (\<lambda>opts. Inl ''no such file'')\<rparr>"

definition parseFailEnv :: env where
  "parseFailEnv = exampleEnv\<lparr>ParseCommands := (\<lambda>opts. Inl ''yaml: line 3'')\<rparr>"



section \<open>Notions used in the statements\<close>

text \<open>Two runs have the same settings when they differ at most in the graph and the trace.\<close>

definition sameSettings :: "run \<Rightarrow> run \<Rightarrow> bool" where
  "sameSettings r s =
     (BasePath s = BasePath r \<and> BaseConfig s = BaseConfig r \<and> BaseCache s = BaseCache r
      \<and> ConfigOptions s = ConfigOptions r \<and> AllowCyclic s = AllowCyclic r
      \<and> kubeLoader s = kubeLoader r \<and> client s = client r)"

text \<open>
  What a trace says: the caches saved, the identities handed to the materializer, and the
  cycle errors that \<^verbatim>\<open>addEdge\<close> returned, each in the order of the calls.
\<close>

fun savedCaches :: "call list \<Rightarrow> cache_ptr list" where
  "savedCaches [] = []"
| "savedCaches (SaveCall p # cs) = p # savedCaches cs"
| "savedCaches (ResolveDependencyCall k # cs) = savedCaches cs"
| "savedCaches (AddEdgeCall a b e # cs) = savedCaches cs"

fun materialized :: "call list \<Rightarrow> ident list" where
  "materialized [] = []"
| "materialized (ResolveDependencyCall k # cs) = k # materialized cs"
| "materialized (SaveCall p # cs) = materialized cs"
| "materialized (AddEdgeCall a b e # cs) = materialized cs"

fun cycleErrors :: "call list \<Rightarrow> error list" where
  "cycleErrors [] = []"
| "cycleErrors (AddEdgeCall a b (Some e) # cs) =
     (if isCyclicError e then e # cycleErrors cs else cycleErrors cs)"
| "cycleErrors (AddEdgeCall a b None # cs) = cycleErrors cs"
| "cycleErrors (ResolveDependencyCall k # cs) = cycleErrors cs"
| "cycleErrors (SaveCall p # cs) = cycleErrors cs"

text \<open>The edges of a graph: from a node present in it to each identity among its children.\<close>

definition edges :: "graph \<Rightarrow> (ident \<times> ident) set" where
  "edges g = {(p, c). \<exists>nd. lookup g p = Some nd \<and> c \<in> set (children nd)}"

text \<open>The payload of the node of an identity, if the node is present and has one.\<close>

definition payload :: "graph \<Rightarrow> ident \<Rightarrow> Dependency option" where
  "payload g k = (case lookup g k of None \<Rightarrow> None | Some nd \<Rightarrow> Data nd)"

text \<open>\<open>precedes x y xs\<close>: \<open>y\<close> occurs in \<open>xs\<close> after the first occurrence of \<open>x\<close>.\<close>

definition precedes :: "'a \<Rightarrow> 'a \<Rightarrow> 'a list \<Rightarrow> bool" where
  "precedes x y xs = (y \<in> set (tl (dropWhile (\<lambda>z. z \<noteq> x) xs)))"

text \<open>
  The graphs the traversal builds: one entry per identity, the root present, no dangling
  edge, no cycle, every node reachable from the root, and a payload on every node but the
  root.
\<close>

definition wellFormed :: "graph \<Rightarrow> bool" where
  "wellFormed g =
     (distinct (map fst (Nodes g))
      \<and> Root g \<in> keys g
      \<and> (\<forall>(p, c) \<in> edges g. c \<in> keys g)
      \<and> acyclic (edges g)
      \<and> (\<forall>k \<in> keys g. (Root g, k) \<in> (edges g)\<^sup>*)
      \<and> (\<forall>k \<in> keys g. (payload g k = None) = (k = Root g)))"

section \<open>Lemmas on the materializer\<close>

text \<open>What a successful materialization went through, and what it returns.\<close>

lemma resolveDependency_InrE:
  assumes "resolveDependency E r basePath dependency update = Inr d"
  obtains depID localPath cloned0 loaded dCommands generatedLoaded newClient dockerClient
  where "DownloadDependency E basePath (Source dependency) (Profile dependency) update
           = Inr (depID, localPath)"
    and "Clone E (ConfigOptions r) = Inr cloned0"
    and "loadConfig E (clonedOptions E r dependency localPath cloned0) = Inr loaded"
    and "ParseCommands E (clonedOptions E r dependency localPath cloned0) = Inr dCommands"
    and "LoadFromPath E (Profile dependency) (Join E localPath (GeneratedConfigPath E))
           = Inr generatedLoaded"
    and "recreateClient E r dependency = Inr newClient"
    and "NewDockerClient E = Inr dockerClient"
    and "ID d = depID" and "LocalPath d = localPath"
    and "Config d = overrideConfig dependency loaded"
    and "Commands d = dCommands"
    and "DependencyConfig d = dependency"
    and "DependencyCache d = BaseCache r"
    and "kubeClient d = newClient"
  using assms unfolding resolveDependency_def Let_def
  by (auto split: sum.splits prod.splits)

lemmas example_eval =
  exampleEnv_def exampleRun_def exampleConfig_def dependsOn_def gitSource_def stagingClient_def

lemmas materializer_eval =
  resolveDependency_def clonedOptions_def loadConfig_def overrideConfig_def recreateClient_def
  Let_def

text \<open>
  C7. Every Dependency returned by \<open>resolveDependency\<close> has the development section of its
  configuration replaced by the empty one; its images are the empty map when the
  declaration sets SkipBuild to true, and the images of the loaded configuration otherwise.
\<close>

theorem resolveDependency_overrides:
  assumes "resolveDependency E r basePath dependency update = Inr d"
  shows "Dev (Config d) = Some emptyDevConfig
    \<and> (SkipBuild dependency = Some True \<longrightarrow> Images (Config d) = Map.empty)
    \<and> (SkipBuild dependency \<noteq> Some True \<longrightarrow>
         (\<exists>cloned0 loaded.
            Clone E (ConfigOptions r) = Inr cloned0
            \<and> loadConfig E (clonedOptions E r dependency (LocalPath d) cloned0) = Inr loaded
            \<and> Images (Config d) = Images loaded))"
  using assms
  by (elim resolveDependency_InrE) (auto simp: overrideConfig_def)

theorem resolveDependency_overrides_witness:
  "map_sum id (\<lambda>d. (Dev (Config d), Images (Config d) ''app''))
     (resolveDependency exampleEnv (exampleRun []) ''/work''
        ((dependsOn ''Q'')\<lparr>SkipBuild := Some True\<rparr>) False)
     = Inr (Some emptyDevConfig, None)
   \<and> map_sum id (\<lambda>d. (Dev (Config d), Images (Config d) ''app''))
     (resolveDependency exampleEnv (exampleRun []) ''/work'' (dependsOn ''Q'') False)
     = Inr (Some emptyDevConfig, Some ''registry/app'')"
proof -
  obtain d where d: "resolveDependency exampleEnv (exampleRun []) ''/work''
        ((dependsOn ''Q'')\<lparr>SkipBuild := Some True\<rparr>) False = Inr d"
    by (simp add: materializer_eval example_eval)
  obtain d' where d': "resolveDependency exampleEnv (exampleRun []) ''/work''
        (dependsOn ''Q'') False = Inr d'"
    by (simp add: materializer_eval example_eval)
  from resolveDependency_overrides[OF d]
  have "Dev (Config d) = Some emptyDevConfig \<and> Images (Config d) = Map.empty"
    by (simp add: dependsOn_def)
  moreover from resolveDependency_overrides[OF d']
  have "Dev (Config d') = Some emptyDevConfig \<and> Images (Config d') ''app'' = Some ''registry/app''"
    by (auto simp: loadConfig_def clonedOptions_def Let_def example_eval)
  ultimately show ?thesis
    by (simp add: d d')
qed

text \<open>The materializer once the download and the clone of the options have succeeded.\<close>

lemma resolveDependency_unfold:
  assumes "DownloadDependency E basePath (Source dependency) (Profile dependency) update
             = Inr (depID, localPath)"
    and "Clone E (ConfigOptions r) = Inr cloned0"
  shows "resolveDependency E r basePath dependency update =
     (case loadConfig E (clonedOptions E r dependency localPath cloned0) of
        Inl m \<Rightarrow> Inl (Wrap (Err m) (''loading config for dependency '' @ depID))
      | Inr loaded \<Rightarrow>
     (case ParseCommands E (clonedOptions E r dependency localPath cloned0) of
        Inl m \<Rightarrow> Inl (Wrap (Err m) ''parse dependency commands'')
      | Inr dCommands \<Rightarrow>
     (case LoadFromPath E (Profile dependency) (Join E localPath (GeneratedConfigPath E)) of
        Inl m \<Rightarrow>
          Inl (Err (''Error loading generated config for dependency '' @ depID @ '': '' @ m))
      | Inr generatedLoaded \<Rightarrow>
     (case recreateClient E r dependency of
        Inl m \<Rightarrow> Inl (Wrap (Err m) ''create new client'')
      | Inr newClient \<Rightarrow>
     (case NewDockerClient E of
        Inl m \<Rightarrow> Inl (Wrap (Err m) ''create docker client'')
      | Inr dockerClient \<Rightarrow>
          Inr \<lparr>ID = depID,
               LocalPath = localPath,
               Config = overrideConfig dependency loaded,
               Commands = dCommands,
               GeneratedConfig = InitDevSpaceConfig E
                 (generatedLoaded\<lparr>ActiveProfile := Profile dependency\<rparr>) (Profile dependency),
               DependencyConfig = dependency,
               DependencyCache = BaseCache r,
               kubeClient = newClient,
               registryClient = RegistryClient (overrideConfig dependency loaded) newClient dockerClient,
               buildController = Controller (overrideConfig dependency loaded)
                 (GetActive E (InitDevSpaceConfig E
                 (generatedLoaded\<lparr>ActiveProfile := Profile dependency\<rparr>) (Profile dependency))) newClient,
               deployController = Controller (overrideConfig dependency loaded)
                 (GetActive E (InitDevSpaceConfig E
                 (generatedLoaded\<lparr>ActiveProfile := Profile dependency\<rparr>) (Profile dependency))) newClient,
               generatedSaver = GeneratedLoader (Profile dependency)\<rparr>)))))"
  unfolding resolveDependency_def Let_def
  by (simp only: assms sum.case prod.case)

text \<open>
  C9, as the code has it. Once the source is downloaded and the options are cloned: a
  failure to load the configuration is returned wrapped with the message
  "loading config for dependency" followed by the identity; a failure to load the generated
  configuration is returned as an error whose message names the identity; a failure to
  parse the commands is returned wrapped with the fixed message "parse dependency commands".
  In each case the result is the error alone.
\<close>

theorem resolveDependency_load_failures:
  assumes "DownloadDependency E basePath (Source dependency) (Profile dependency) update
             = Inr (depID, localPath)"
    and "Clone E (ConfigOptions r) = Inr cloned0"
    and "cloned = clonedOptions E r dependency localPath cloned0"
  shows "(loadConfig E cloned = Inl m \<longrightarrow>
            resolveDependency E r basePath dependency update
              = Inl (Wrap (Err m) (''loading config for dependency '' @ depID))
            \<and> sublist depID (Error (Wrap (Err m) (''loading config for dependency '' @ depID))))
       \<and> (loadConfig E cloned = Inr loaded \<and> ParseCommands E cloned = Inl m \<longrightarrow>
            resolveDependency E r basePath dependency update
              = Inl (Wrap (Err m) ''parse dependency commands''))
       \<and> (loadConfig E cloned = Inr loaded \<and> ParseCommands E cloned = Inr dCommands
            \<and> LoadFromPath E (Profile dependency) (Join E localPath (GeneratedConfigPath E)) = Inl m
          \<longrightarrow>
            resolveDependency E r basePath dependency update
              = Inl (Err (''Error loading generated config for dependency '' @ depID @ '': '' @ m))
            \<and> sublist depID
                 (Error (Err (''Error loading generated config for dependency '' @ depID @ '': '' @ m))))"
proof -
  have sub: "sublist depID (pre @ depID @ post)" for pre post :: string
    by (rule sublist_appendI)
  have s1: "sublist depID (Error (Wrap (Err m) (''loading config for dependency '' @ depID)))"
    using sub[of "''loading config for dependency ''" "'': '' @ m"] by simp
  have s2: "sublist depID
      (Error (Err (''Error loading generated config for dependency '' @ depID @ '': '' @ m)))"
    using sub[of "''Error loading generated config for dependency ''" "'': '' @ m"] by simp
  note unf = resolveDependency_unfold[OF assms(1,2), folded assms(3)]
  show ?thesis
  proof (intro conjI impI)
    assume "loadConfig E cloned = Inl m"
    then show "resolveDependency E r basePath dependency update
              = Inl (Wrap (Err m) (''loading config for dependency '' @ depID))"
      by (simp add: unf)
  next
    assume "loadConfig E cloned = Inr loaded \<and> ParseCommands E cloned = Inl m"
    then show "resolveDependency E r basePath dependency update
              = Inl (Wrap (Err m) ''parse dependency commands'')"
      by (simp add: unf)
  next
    assume "loadConfig E cloned = Inr loaded \<and> ParseCommands E cloned = Inr dCommands
            \<and> LoadFromPath E (Profile dependency) (Join E localPath (GeneratedConfigPath E)) = Inl m"
    then show "resolveDependency E r basePath dependency update
              = Inl (Err (''Error loading generated config for dependency '' @ depID @ '': '' @ m))"
      by (simp add: unf)
  qed (rule s1 s2)+
qed

theorem resolveDependency_load_failures_witness:
  "resolveDependency loadFailEnv (exampleRun []) ''/work'' (dependsOn ''R'') False
     = Inl (Wrap (Err ''no such file'') ''loading config for dependency R'')
   \<and> sublist ''R'' (Error (Wrap (Err ''no such file'') ''loading config for dependency R''))
   \<and> resolveDependency parseFailEnv (exampleRun []) ''/work'' (dependsOn ''R'') False
     = Inl (Wrap (Err ''yaml: line 3'') ''parse dependency commands'')"
proof -
  have "loadConfig loadFailEnv
          (clonedOptions loadFailEnv (exampleRun []) (dependsOn ''R'') ''/deps/R''
             (ConfigOptions (exampleRun []))) = Inl ''no such file''"
    by (simp add: loadFailEnv_def loadConfig_def clonedOptions_def Let_def example_eval)
  with resolveDependency_load_failures[where E = loadFailEnv and basePath = "''/work''"
      and dependency = "dependsOn ''R''" and update = False and depID = "''R''"
      and localPath = "''/deps/R''" and r = "exampleRun []"
      and ?cloned0.0 = "ConfigOptions (exampleRun [])" and m = "''no such file''", OF _ _ refl]
  have a: "resolveDependency loadFailEnv (exampleRun []) ''/work'' (dependsOn ''R'') False
     = Inl (Wrap (Err ''no such file'') ''loading config for dependency R'')
   \<and> sublist ''R'' (Error (Wrap (Err ''no such file'') ''loading config for dependency R''))"
    by (simp add: loadFailEnv_def example_eval)
  have "loadConfig parseFailEnv
          (clonedOptions parseFailEnv (exampleRun []) (dependsOn ''R'') ''/deps/R''
             (ConfigOptions (exampleRun [])))
          = Inr (exampleConfig ''/deps/R/devspace.yaml'')
        \<and> ParseCommands parseFailEnv
          (clonedOptions parseFailEnv (exampleRun []) (dependsOn ''R'') ''/deps/R''
             (ConfigOptions (exampleRun []))) = Inl ''yaml: line 3''"
    by (simp add: parseFailEnv_def loadConfig_def clonedOptions_def Let_def exampleEnv_def
          exampleRun_def dependsOn_def gitSource_def)
  with resolveDependency_load_failures[where E = parseFailEnv and basePath = "''/work''"
      and dependency = "dependsOn ''R''" and update = False and depID = "''R''"
      and localPath = "''/deps/R''" and r = "exampleRun []"
      and ?cloned0.0 = "ConfigOptions (exampleRun [])"
      and loaded = "exampleConfig ''/deps/R/devspace.yaml''" and m = "''yaml: line 3''",
      OF _ _ refl]
  have b: "resolveDependency parseFailEnv (exampleRun []) ''/work'' (dependsOn ''R'') False
     = Inl (Wrap (Err ''yaml: line 3'') ''parse dependency commands'')"
    by (simp add: parseFailEnv_def exampleEnv_def dependsOn_def gitSource_def)
  from a b show ?thesis by simp
qed

theorem parse_failure_lacks_identity_counterexample:
  "DownloadDependency parseFailEnv ''/work'' (Source (dependsOn ''R'')) (Profile (dependsOn ''R''))
      False = Inr (''R'', ''/deps/R'')
   \<and> ParseCommands parseFailEnv
        (clonedOptions parseFailEnv (exampleRun []) (dependsOn ''R'') ''/deps/R''
           (ConfigOptions (exampleRun []))) = Inl ''yaml: line 3''
   \<and> resolveDependency parseFailEnv (exampleRun []) ''/work'' (dependsOn ''R'') False
        = Inl (Wrap (Err ''yaml: line 3'') ''parse dependency commands'')
   \<and> \<not> sublist ''R'' (Error (Wrap (Err ''yaml: line 3'') ''parse dependency commands''))"
proof -
  have "\<not> sublist ''R'' (Error (Wrap (Err ''yaml: line 3'') ''parse dependency commands''))"
  proof
    assume "sublist ''R'' (Error (Wrap (Err ''yaml: line 3'') ''parse dependency commands''))"
    then have "set ''R'' \<subseteq> set (Error (Wrap (Err ''yaml: line 3'') ''parse dependency commands''))"
      by (rule set_mono_sublist)
    then show False by simp
  qed
  then show ?thesis
    by (simp add: parseFailEnv_def materializer_eval example_eval)
qed

section \<open>Lemmas on the traversal\<close>

text \<open>
  An invariant rule for \<open>resolveRecursive\<close>: \<open>I\<close> holds of the run while the traversal goes
  on, \<open>J\<close> of the error and the run when it aborts. One premise per place where the
  source changes the run or returns an error.
\<close>

lemma resolveRecursive_rule:
  assumes edge_fail: "\<And>r parentID depID err.
      I r \<Longrightarrow> lookup (DependencyGraph r) depID \<noteq> None
      \<Longrightarrow> addEdge (DependencyGraph r) parentID depID = Inl err
      \<Longrightarrow> (if isCyclicError err \<and> AllowCyclic r
           then I (r\<lparr>calls := calls r @ [AddEdgeCall parentID depID (Some err)]\<rparr>)
           else J err (r\<lparr>calls := calls r @ [AddEdgeCall parentID depID (Some err)]\<rparr>))"
    and edge_ok: "\<And>r parentID depID g.
      I r \<Longrightarrow> lookup (DependencyGraph r) depID \<noteq> None
      \<Longrightarrow> addEdge (DependencyGraph r) parentID depID = Inr g
      \<Longrightarrow> I (r\<lparr>DependencyGraph := g, calls := calls r @ [AddEdgeCall parentID depID None]\<rparr>)"
    and mat_fail: "\<And>r depID basePath dc update err.
      I r \<Longrightarrow> lookup (DependencyGraph r) depID = None
      \<Longrightarrow> resolveDependency E (r\<lparr>calls := calls r @ [ResolveDependencyCall depID]\<rparr>)
            basePath dc update = Inl err
      \<Longrightarrow> J err (r\<lparr>calls := calls r @ [ResolveDependencyCall depID]\<rparr>)"
    and insert_fail: "\<And>r parentID depID basePath dc update dependency err.
      I r \<Longrightarrow> lookup (DependencyGraph r) depID = None
      \<Longrightarrow> resolveDependency E (r\<lparr>calls := calls r @ [ResolveDependencyCall depID]\<rparr>)
            basePath dc update = Inr dependency
      \<Longrightarrow> insertNodeAt (DependencyGraph r) parentID depID dependency = Inl err
      \<Longrightarrow> J (Wrap err ''insert node'') (r\<lparr>calls := calls r @ [ResolveDependencyCall depID]\<rparr>)"
    and insert_ok: "\<And>r parentID depID basePath dc update dependency g.
      I r \<Longrightarrow> lookup (DependencyGraph r) depID = None
      \<Longrightarrow> resolveDependency E (r\<lparr>calls := calls r @ [ResolveDependencyCall depID]\<rparr>)
            basePath dc update = Inr dependency
      \<Longrightarrow> insertNodeAt (DependencyGraph r) parentID depID dependency = Inr g
      \<Longrightarrow> I (r\<lparr>calls := calls r @ [ResolveDependencyCall depID], DependencyGraph := g\<rparr>)"
  shows "I r \<Longrightarrow> resolveRecursive n E r basePath parentID dependencies update = Some (res, r')
     \<Longrightarrow> (case res of None \<Rightarrow> I r' | Some err \<Rightarrow> J err r')"
proof (induction n arbitrary: r basePath parentID dependencies res r')
  case 0
  then show ?case by simp
next
  case (Suc n)
  show ?case
  proof (cases dependencies)
    case Nil
    with Suc.prems show ?thesis by auto
  next
    case (Cons dc rest)
    define depID where "depID = GetDependencyID E basePath (Source dc) (Profile dc)"
    note run = Suc.prems(2)[unfolded Cons resolveRecursive.simps, folded depID_def]
    show ?thesis
    proof (cases "lookup (DependencyGraph r) depID = None")
      case False
      show ?thesis
      proof (cases "addEdge (DependencyGraph r) parentID depID")
        case (Inl err)
        define r1 where "r1 = r\<lparr>calls := calls r @ [AddEdgeCall parentID depID (Some err)]\<rparr>"
        note step = edge_fail[OF Suc.prems(1) False Inl, folded r1_def]
        show ?thesis
        proof (cases "isCyclicError err \<and> AllowCyclic r")
          case True
          with run False Inl
          have "resolveRecursive n E r1 basePath parentID rest update = Some (res, r')"
            by (simp add: Let_def r1_def)
          moreover from step True have "I r1" by simp
          ultimately show ?thesis by (rule Suc.IH[rotated])
        next
          case c: False
          with run False Inl have "res = Some err" "r' = r1"
            by (auto simp: Let_def r1_def split: if_splits)
          with step c show ?thesis by simp
        qed
      next
        case (Inr g)
        define r1 where
          "r1 = r\<lparr>DependencyGraph := g, calls := calls r @ [AddEdgeCall parentID depID None]\<rparr>"
        from run False Inr
        have "resolveRecursive n E r1 basePath parentID rest update = Some (res, r')"
          by (simp add: Let_def r1_def)
        moreover have "I r1"
          unfolding r1_def by (rule edge_ok[OF Suc.prems(1) False Inr])
        ultimately show ?thesis by (rule Suc.IH[rotated])
      qed
    next
      case True
      define r1 where "r1 = r\<lparr>calls := calls r @ [ResolveDependencyCall depID]\<rparr>"
      show ?thesis
      proof (cases "resolveDependency E r1 basePath dc update")
        case (Inl err)
        with run True have "res = Some err" "r' = r1"
          by (auto simp: Let_def r1_def)
        with mat_fail[OF Suc.prems(1) True Inl[unfolded r1_def]] show ?thesis
          by (simp add: r1_def)
      next
        case (Inr dependency)
        show ?thesis
        proof (cases "insertNodeAt (DependencyGraph r) parentID depID dependency")
          case ins: (Inl err)
          with run True Inr have "res = Some (Wrap err ''insert node'')" "r' = r1"
            by (auto simp: Let_def r1_def)
          with insert_fail[OF Suc.prems(1) True Inr[unfolded r1_def] ins] show ?thesis
            by (simp add: r1_def)
        next
          case ins: (Inr g)
          define r2 where "r2 = r1\<lparr>DependencyGraph := g\<rparr>"
          have I2: "I r2"
            unfolding r2_def r1_def
            by (rule insert_ok[OF Suc.prems(1) True Inr[unfolded r1_def] ins])
          show ?thesis
          proof (cases "(IgnoreDependencies dc = None \<or> IgnoreDependencies dc = Some False)
                        \<and> Dependencies (Config dependency) \<noteq> []")
            case nested: True
            show ?thesis
            proof (cases "resolveRecursive n E r2 (LocalPath dependency) depID
                            (Dependencies (Config dependency)) update")
              case None
              with run True Inr ins nested show ?thesis
                by (simp add: Let_def r1_def r2_def)
            next
              case (Some p)
              obtain res3 r3 where p: "p = (res3, r3)" by (cases p)
              note inner = Suc.IH[OF I2 Some[unfolded p]]
              show ?thesis
              proof (cases res3)
                case None
                with run True Inr ins nested Some p
                have "resolveRecursive n E r3 basePath parentID rest update = Some (res, r')"
                  by (simp add: Let_def r1_def r2_def)
                moreover from inner None have "I r3" by simp
                ultimately show ?thesis by (rule Suc.IH[rotated])
              next
                case (Some err)
                with run True Inr ins nested \<open>resolveRecursive n E r2 (LocalPath dependency) depID
                            (Dependencies (Config dependency)) update = Some p\<close> p
                have "res = Some err" "r' = r3"
                  by (auto simp: Let_def r1_def r2_def)
                with inner Some show ?thesis by simp
              qed
            qed
          next
            case flat: False
            with run True Inr ins
            have "resolveRecursive n E r2 basePath parentID rest update = Some (res, r')"
              by (auto simp: Let_def r1_def r2_def split: if_splits)
            then show ?thesis using I2 by (rule Suc.IH[rotated])
          qed
        qed
      qed
    qed
  qed
qed

lemma resolveRecursive_frame:
  assumes "resolveRecursive n E r basePath parentID dependencies update = Some (res, r')"
  shows "sameSettings r r'"
proof -
  have "case res of None \<Rightarrow> sameSettings r r' | Some err \<Rightarrow> sameSettings r r'"
    by (rule resolveRecursive_rule[where I = "sameSettings r" and J = "\<lambda>e. sameSettings r",
          OF _ _ _ _ _ _ assms])
       (simp_all add: sameSettings_def)
  then show ?thesis by (cases res) auto
qed

lemma Resolve_frame:
  assumes "Resolve n E r update = Some (res, r')"
  shows "sameSettings r r'"
proof (cases "Getwd E")
  case (Inl m)
  with assms show ?thesis by (simp add: Resolve_def sameSettings_def)
next
  case (Inr cwd)
  show ?thesis
  proof (cases "resolveRecursive n E r cwd (Root (DependencyGraph r))
                  (Dependencies (BaseConfig r)) update")
    case None
    with assms Inr show ?thesis by (simp add: Resolve_def)
  next
    case (Some p)
    obtain e r1 where p: "p = (e, r1)" by (cases p)
    from resolveRecursive_frame[OF Some[unfolded p]] have f: "sameSettings r r1" .
    from assms Inr Some p have "sameSettings r1 r'"
      by (auto simp: Resolve_def Let_def sameSettings_def
            split: option.splits if_splits prod.splits)
    with f show ?thesis by (simp add: sameSettings_def)
  qed
qed

lemmas graph_eval = lookup_def presentChildren_def isLeaf_def getNextLeaf_def hasPath_def
  addEdge_def insertNodeAt_def removeNode_def newGraph_def newNode_def dfsFind.simps

text \<open>
  C8, as the code has it. A declaration with a non-empty namespace gets the client that
  the factory returns for the context of the resolver's client (the empty context when the
  resolver has none) and that namespace; a declaration without a namespace gets the
  resolver's client itself. Neither the traversal nor \<open>Resolve\<close> changes the resolver's
  client.
\<close>

theorem resolveDependency_client:
  "(resolveDependency E r basePath dependency update = Inr d \<longrightarrow>
      (Namespace dependency = [] \<longrightarrow> kubeClient d = client r)
      \<and> (Namespace dependency \<noteq> [] \<longrightarrow>
           (\<exists>c. NewClientFromContext E
                  (case client r of None \<Rightarrow> [] | Some current \<Rightarrow> CurrentContext current)
                  (Namespace dependency) False (kubeLoader r) = Inr c
                \<and> kubeClient d = Some c)))
   \<and> (resolveRecursive n E r0 basePath0 parentID dependencies update0 = Some (res, r1)
        \<longrightarrow> client r1 = client r0)
   \<and> (Resolve n E r0 update0 = Some (res', r2) \<longrightarrow> client r2 = client r0)"
proof (intro conjI impI)
  assume a: "resolveDependency E r basePath dependency update = Inr d"
  {
    assume "Namespace dependency = []"
    with a show "kubeClient d = client r"
      by (elim resolveDependency_InrE) (simp add: recreateClient_def)
  next
    assume "Namespace dependency \<noteq> []"
    with a show "\<exists>c. NewClientFromContext E
                  (case client r of None \<Rightarrow> [] | Some current \<Rightarrow> CurrentContext current)
                  (Namespace dependency) False (kubeLoader r) = Inr c
                \<and> kubeClient d = Some c"
      by (elim resolveDependency_InrE)
         (auto simp: recreateClient_def map_sum_def split: option.splits sum.splits)
  }
next
  assume "resolveRecursive n E r0 basePath0 parentID dependencies update0 = Some (res, r1)"
  from resolveRecursive_frame[OF this] show "client r1 = client r0"
    by (simp add: sameSettings_def)
next
  assume "Resolve n E r0 update0 = Some (res', r2)"
  from Resolve_frame[OF this] show "client r2 = client r0"
    by (simp add: sameSettings_def)
qed

text \<open>
  The spec compares the declared namespace with the client's. The code does not: a
  declaration naming the namespace the client is already bound to still gets a new client.
\<close>

theorem same_namespace_new_client_counterexample:
  "client (exampleRun []) = Some stagingClient
   \<and> Namespace ((dependsOn ''Q'')\<lparr>Namespace := ''staging''\<rparr>) = Client.Namespace stagingClient
   \<and> map_sum id kubeClient
       (resolveDependency exampleEnv (exampleRun []) ''/work''
          ((dependsOn ''Q'')\<lparr>Namespace := ''staging''\<rparr>) False)
       = Inr (Some \<lparr>handle = 2, CurrentContext = ''minikube'', Client.Namespace = ''staging''\<rparr>)
   \<and> Some \<lparr>handle = 2, CurrentContext = ''minikube'', Client.Namespace = ''staging''\<rparr>
       \<noteq> client (exampleRun [])"
  by (simp add: materializer_eval example_eval)

theorem resolveDependency_client_witness:
  "map_sum id kubeClient
       (resolveDependency exampleEnv (exampleRun []) ''/work''
          ((dependsOn ''Q'')\<lparr>Namespace := ''production''\<rparr>) False)
       = Inr (Some \<lparr>handle = 2, CurrentContext = ''minikube'', Client.Namespace = ''production''\<rparr>)
   \<and> map_sum id kubeClient
       (resolveDependency exampleEnv (exampleRun []) ''/work''
          (dependsOn ''Q'') False)
       = Inr (Some stagingClient)
   \<and> map_option (\<lambda>(res, r). (map_sum id (map ID) res, client r))
       (Resolve 10 exampleEnv (exampleRun [''P'', ''Q'']) False)
       = Some (Inr [''R'', ''P'', ''Q''], Some stagingClient)"
proof -
  let ?r = "exampleRun []"
  obtain d where d: "resolveDependency exampleEnv ?r ''/work''
          ((dependsOn ''Q'')\<lparr>Namespace := ''production''\<rparr>) False = Inr d"
    by (simp add: materializer_eval example_eval)
  obtain d' where d': "resolveDependency exampleEnv ?r ''/work'' (dependsOn ''Q'') False = Inr d'"
    by (simp add: materializer_eval example_eval)
  obtain res r2 where run: "Resolve 10 exampleEnv
        (exampleRun [''P'', ''Q'']) False = Some (res, r2)"
    and res: "map_sum id (map ID) res = Inr [''R'', ''P'', ''Q'']"
    by (simp add: Resolve_def buildDependencyQueue_def drainQueue.simps eval_nat_numeral
          materializer_eval example_eval graph_eval)
  note inst = resolveDependency_client[where E = exampleEnv and r = ?r and basePath = "''/work''"
      and update = False and n = 10
      and ?r0.0 = "exampleRun [''P'', ''Q'']"
      and ?update0.0 = False and res' = res and ?r2.0 = r2]
  from inst[where dependency = "(dependsOn ''Q'')\<lparr>Namespace := ''production''\<rparr>" and d = d] d
  have "kubeClient d
     = Some \<lparr>handle = 2, CurrentContext = ''minikube'', Client.Namespace = ''production''\<rparr>"
    by (auto simp: example_eval)
  moreover from inst[where dependency = "dependsOn ''Q''" and d = d'] d'
  have "kubeClient d' = Some stagingClient"
    by (auto simp: example_eval)
  moreover from inst[where dependency = "dependsOn ''Q''" and d = d'] run
  have "client r2 = Some stagingClient"
    by (simp add: exampleRun_def)
  ultimately show ?thesis
    by (simp add: d d' run res)
qed

text \<open>The trace functions distribute over the concatenation of traces.\<close>

lemma savedCaches_append [simp]: "savedCaches (xs @ ys) = savedCaches xs @ savedCaches ys"
  by (induction xs rule: savedCaches.induct) auto

lemma materialized_append [simp]: "materialized (xs @ ys) = materialized xs @ materialized ys"
  by (induction xs rule: materialized.induct) auto

lemma cycleErrors_append [simp]: "cycleErrors (xs @ ys) = cycleErrors xs @ cycleErrors ys"
  by (induction xs rule: cycleErrors.induct) auto

lemma resolveRecursive_no_save:
  assumes "resolveRecursive n E r basePath parentID dependencies update = Some (res, r')"
  shows "\<exists>new. calls r' = calls r @ new \<and> savedCaches new = []"
proof -
  define I where "I = (\<lambda>s :: run. \<exists>new. calls s = calls r @ new \<and> savedCaches new = [])"
  have "case res of None \<Rightarrow> I r' | Some err \<Rightarrow> I r'"
    by (rule resolveRecursive_rule[where I = I and J = "\<lambda>e. I", OF _ _ _ _ _ _ assms])
       (auto simp: I_def)
  then show ?thesis by (cases res) (auto simp: I_def)
qed

text \<open>Keys of the graph under the operations of the traversal.\<close>

lemma lookup_None_iff: "lookup g k = None \<longleftrightarrow> k \<notin> keys g"
  by (simp add: lookup_def keys_def map_of_eq_None_iff)

lemma keys_update: "lookup g k = Some nd \<Longrightarrow> keys (g\<lparr>Nodes := AList.update k v (Nodes g)\<rparr>) = keys g"
  by (auto simp: keys_def lookup_def AList.dom_update dest!: map_of_SomeD intro: rev_image_eqI)

lemma addEdge_keys: "addEdge g a b = Inr g' \<Longrightarrow> keys g' = keys g"
  by (auto simp: addEdge_def keys_update split: option.splits if_splits)

lemma insertNodeAt_keys:
  assumes "insertNodeAt g p k d = Inr g'"
  shows "keys g' = insert k (keys g)"
proof -
  from assms obtain parent where p: "lookup g p = Some parent"
    and g': "g' = g\<lparr>Nodes :=
                 AList.update p (parent\<lparr>children := children parent @ [k]\<rparr>) (Nodes g)
                 @ [(k, newNode (Some d))]\<rparr>"
    by (auto simp: insertNodeAt_def split: option.splits if_splits)
  from p have "p \<in> fst ` set (Nodes g)"
    by (auto simp: lookup_def dest!: map_of_SomeD intro: rev_image_eqI)
  then have "fst ` set (AList.update p (parent\<lparr>children := children parent @ [k]\<rparr>) (Nodes g))
      = fst ` set (Nodes g)"
    by (auto simp: AList.dom_update)
  with g' show ?thesis
    by (simp add: keys_def)
qed

lemma resolveDependency_not_cyclic:
  "resolveDependency E r basePath dependency update = Inl err \<Longrightarrow> \<not> isCyclicError err"
  unfolding resolveDependency_def Let_def
  by (auto split: sum.splits prod.splits)

lemma resolveRecursive_materialized:
  assumes "resolveRecursive n E r basePath parentID dependencies update = Some (res, r')"
  shows "\<exists>new. calls r' = calls r @ new \<and> distinct (materialized new)
           \<and> set (materialized new) \<inter> keys (DependencyGraph r) = {}"
proof -
  define J where "J = (\<lambda>s :: run. \<exists>new. calls s = calls r @ new \<and> distinct (materialized new)
           \<and> set (materialized new) \<inter> keys (DependencyGraph r) = {})"
  define I where "I = (\<lambda>s :: run. \<exists>new. calls s = calls r @ new \<and> distinct (materialized new)
           \<and> set (materialized new) \<inter> keys (DependencyGraph r) = {}
           \<and> set (materialized new) \<subseteq> keys (DependencyGraph s)
           \<and> keys (DependencyGraph r) \<subseteq> keys (DependencyGraph s))"
  have "case res of None \<Rightarrow> I r' | Some err \<Rightarrow> (\<lambda>e. J) err r'"
  proof (rule resolveRecursive_rule[where I = I and J = "\<lambda>e. J", OF _ _ _ _ _ _ assms])
    show "I r" by (simp add: I_def)
  next
    fix s :: run and parentID depID err
    assume "I s"
    then show "if isCyclicError err \<and> AllowCyclic s
       then I (s\<lparr>calls := calls s @ [AddEdgeCall parentID depID (Some err)]\<rparr>)
       else J (s\<lparr>calls := calls s @ [AddEdgeCall parentID depID (Some err)]\<rparr>)"
      by (auto simp: I_def J_def)
  next
    fix s :: run and parentID depID g
    assume "I s" "addEdge (DependencyGraph s) parentID depID = Inr g"
    then show "I (s\<lparr>DependencyGraph := g, calls := calls s @ [AddEdgeCall parentID depID None]\<rparr>)"
      by (auto simp: I_def dest!: addEdge_keys)
  next
    fix s :: run and depID
    assume "I s" "lookup (DependencyGraph s) depID = None"
    then show "J (s\<lparr>calls := calls s @ [ResolveDependencyCall depID]\<rparr>)"
      by (auto simp: I_def J_def lookup_None_iff)
  next
    fix s :: run and depID
    assume "I s" "lookup (DependencyGraph s) depID = None"
    then show "J (s\<lparr>calls := calls s @ [ResolveDependencyCall depID]\<rparr>)"
      by (auto simp: I_def J_def lookup_None_iff)
  next
    fix s :: run and parentID depID dependency g
    assume "I s" "lookup (DependencyGraph s) depID = None"
      "insertNodeAt (DependencyGraph s) parentID depID dependency = Inr g"
    then show "I (s\<lparr>calls := calls s @ [ResolveDependencyCall depID], DependencyGraph := g\<rparr>)"
      by (auto simp: I_def lookup_None_iff dest!: insertNodeAt_keys)
  qed
  then show ?thesis by (cases res) (auto simp: I_def J_def)
qed

lemma cycleErrors_member:
  "AddEdgeCall a b (Some e) \<in> set cs \<Longrightarrow> isCyclicError e \<Longrightarrow> e \<in> set (cycleErrors cs)"
  by (induction cs rule: cycleErrors.induct) auto

lemma resolveRecursive_cycle_abort:
  assumes "\<not> AllowCyclic r"
    and "resolveRecursive n E r basePath parentID dependencies update = Some (res, r')"
  shows "\<exists>new. calls r' = calls r @ new
           \<and> (case res of
                None \<Rightarrow> cycleErrors new = []
              | Some err \<Rightarrow>
                  if isCyclicError err
                  then \<exists>pre a b. new = pre @ [AddEdgeCall a b (Some err)] \<and> cycleErrors pre = []
                  else cycleErrors new = [])"
proof -
  define I where "I = (\<lambda>s :: run. \<not> AllowCyclic s
                        \<and> (\<exists>new. calls s = calls r @ new \<and> cycleErrors new = []))"
  define J where "J = (\<lambda>err (s :: run). \<exists>new. calls s = calls r @ new
        \<and> (if isCyclicError err
            then \<exists>pre a b. new = pre @ [AddEdgeCall a b (Some err)] \<and> cycleErrors pre = []
            else cycleErrors new = []))"
  have "case res of None \<Rightarrow> I r' | Some err \<Rightarrow> J err r'"
  proof (rule resolveRecursive_rule[where I = I and J = J, OF _ _ _ _ _ _ assms(2)])
    show "I r" using assms(1) by (simp add: I_def)
  next
    fix s :: run and parentID depID err
    assume "I s"
    then show "if isCyclicError err \<and> AllowCyclic s
       then I (s\<lparr>calls := calls s @ [AddEdgeCall parentID depID (Some err)]\<rparr>)
       else J err (s\<lparr>calls := calls s @ [AddEdgeCall parentID depID (Some err)]\<rparr>)"
      by (auto simp: I_def J_def)
  next
    fix s :: run and parentID depID g
    assume "I s"
    then show "I (s\<lparr>DependencyGraph := g, calls := calls s @ [AddEdgeCall parentID depID None]\<rparr>)"
      by (auto simp: I_def)
  next
    fix s :: run and depID basePath dc update err
    assume "I s"
      "resolveDependency E (s\<lparr>calls := calls s @ [ResolveDependencyCall depID]\<rparr>)
            basePath dc update = Inl err"
    then show "J err (s\<lparr>calls := calls s @ [ResolveDependencyCall depID]\<rparr>)"
      by (auto simp: I_def J_def dest: resolveDependency_not_cyclic)
  next
    fix s :: run and depID err
    assume "I s"
    then show "J (Wrap err ''insert node'') (s\<lparr>calls := calls s @ [ResolveDependencyCall depID]\<rparr>)"
      by (auto simp: I_def J_def)
  next
    fix s :: run and depID g
    assume "I s"
    then show "I (s\<lparr>calls := calls s @ [ResolveDependencyCall depID], DependencyGraph := g\<rparr>)"
      by (auto simp: I_def)
  qed
  then show ?thesis by (cases res) (auto simp: I_def J_def)
qed

lemma resolveRecursive_tolerant:
  assumes "AllowCyclic r"
    and "resolveRecursive n E r basePath parentID dependencies update = Some (Some err, r')"
  shows "\<not> isCyclicError err"
proof -
  have "case Some err of None \<Rightarrow> AllowCyclic r' | Some e \<Rightarrow> (\<lambda>e s. \<not> isCyclicError e) e r'"
    by (rule resolveRecursive_rule[where I = AllowCyclic and J = "\<lambda>e s. \<not> isCyclicError e",
          OF _ _ _ _ _ assms])
       (auto dest: resolveDependency_not_cyclic)
  then show ?thesis by simp
qed

lemma removeNode_not_cyclic: "removeNode g k = Inl e \<Longrightarrow> \<not> isCyclicError e"
  by (auto simp: removeNode_def split: if_splits)

lemma drainQueue_not_cyclic:
  "drainQueue g acc = (Inl e, g') \<Longrightarrow> \<not> isCyclicError e"
proof (induction g acc rule: drainQueue.induct)
  case (1 g acc)
  show ?case
  proof (cases "length (Nodes g) > 1 \<and> getNextLeaf g (Root g) \<noteq> Root g")
    case False
    with "1.prems" show ?thesis
      by (subst (asm) drainQueue.simps) (auto simp: Let_def split: if_splits)
  next
    case True
    show ?thesis
    proof (cases "lookup g (getNextLeaf g (Root g))")
      case None
      with "1.prems" True show ?thesis
        by (subst (asm) drainQueue.simps) (auto simp: Let_def)
    next
      case (Some nd)
      show ?thesis
      proof (cases "Data nd")
        case None
        with "1.prems" True Some show ?thesis
          by (subst (asm) drainQueue.simps) (auto simp: Let_def)
      next
        case d: (Some d)
        show ?thesis
        proof (cases "removeNode g (getNextLeaf g (Root g))")
          case (Inl err)
          with "1.prems" True Some d show ?thesis
            by (subst (asm) drainQueue.simps) (auto simp: Let_def dest: removeNode_not_cyclic)
        next
          case (Inr g2)
          with "1.prems" True Some d
          have "drainQueue g2 (acc @ [d]) = (Inl e, g')"
            by (subst (asm) drainQueue.simps) (auto simp: Let_def)
          with "1.IH"[OF _ refl _ Some d Inr] True show ?thesis by simp
        qed
      qed
    qed
  qed
qed

lemmas run_eval = Resolve_def buildDependencyQueue_def drainQueue.simps eval_nat_numeral
  materializer_eval example_eval graph_eval



text \<open>Edges of the graph under the operations of the traversal: they are only added.\<close>

lemma lookup_update:
  "lookup (g\<lparr>Nodes := AList.update k v (Nodes g)\<rparr>) x = (if x = k then Some v else lookup g x)"
  by (simp add: lookup_def update_conv')

lemma addEdge_edges:
  assumes "addEdge g a b = Inr g'"
  shows "edges g' = insert (a, b) (edges g)"
proof -
  from assms obtain src where f: "lookup g a = Some src"
    and g': "g' = (if b \<in> set (children src) then g
                   else g\<lparr>Nodes := AList.update a (src\<lparr>children := children src @ [b]\<rparr>) (Nodes g)\<rparr>)"
    by (auto simp: addEdge_def split: option.splits if_splits)
  show ?thesis
  proof (cases "b \<in> set (children src)")
    case True
    with f g' show ?thesis by (auto simp: edges_def)
  next
    case False
    with f g' show ?thesis
      by (auto simp: edges_def lookup_update split: if_splits)
  qed
qed

lemma insertNodeAt_lookup:
  assumes "insertNodeAt g p k d = Inr g'"
  shows "\<exists>parent. lookup g p = Some parent \<and> lookup g k = None
     \<and> lookup g' = (lookup g)(p \<mapsto> parent\<lparr>children := children parent @ [k]\<rparr>,
                               k \<mapsto> newNode (Some d))"
proof -
  from assms obtain parent where p: "lookup g p = Some parent" and k: "lookup g k = None"
    and g': "g' = g\<lparr>Nodes :=
                 AList.update p (parent\<lparr>children := children parent @ [k]\<rparr>) (Nodes g)
                 @ [(k, newNode (Some d))]\<rparr>"
    by (auto simp: insertNodeAt_def split: option.splits if_splits)
  from p k have pk: "p \<noteq> k" by auto
  have "lookup g' x = ((lookup g)(p \<mapsto> parent\<lparr>children := children parent @ [k]\<rparr>,
                               k \<mapsto> newNode (Some d))) x" for x
    using k pk unfolding g'
    by (auto simp: lookup_def update_conv' map_add_def split: option.splits)
  with p k show ?thesis by auto
qed

lemma insertNodeAt_edges:
  assumes "insertNodeAt g p k d = Inr g'"
  shows "edges g' = insert (p, k) (edges g)"
proof -
  from insertNodeAt_lookup[OF assms] obtain parent where p: "lookup g p = Some parent"
    and k: "lookup g k = None"
    and g': "lookup g' = (lookup g)(p \<mapsto> parent\<lparr>children := children parent @ [k]\<rparr>,
                               k \<mapsto> newNode (Some d))"
    by blast
  show ?thesis
    using p k by (auto simp: edges_def g' newNode_def split: if_splits)
qed

lemma resolveRecursive_edges_mono:
  assumes "resolveRecursive n E r basePath parentID dependencies update = Some (res, r')"
  shows "edges (DependencyGraph r) \<subseteq> edges (DependencyGraph r')"
proof -
  define I where "I = (\<lambda>s :: run. edges (DependencyGraph r) \<subseteq> edges (DependencyGraph s))"
  have "case res of None \<Rightarrow> I r' | Some err \<Rightarrow> (\<lambda>e. I) err r'"
    by (rule resolveRecursive_rule[where I = I and J = "\<lambda>e. I", OF _ _ _ _ _ _ assms])
       (auto simp: I_def dest!: addEdge_edges insertNodeAt_edges)
  then show ?thesis by (cases res) (auto simp: I_def)
qed

text \<open>
  C1. In a descent, and so in a run of \<open>Resolve\<close>, the identities handed to the materializer
  are pairwise distinct and none of them was a node of the graph when the descent began.
  When the identity of a declaration is already a node, the traversal's next call is
  \<^verbatim>\<open>addEdge\<close> from the current parent to that node, the materializer is not called for
  that identity in the rest of the descent, and if \<^verbatim>\<open>addEdge\<close> succeeds the edge is in the
  graph when the descent returns.
\<close>

theorem materializer_once_per_identity:
  "(resolveRecursive n E r basePath parentID dependencies update = Some (res, r') \<longrightarrow>
      (\<exists>new. calls r' = calls r @ new \<and> distinct (materialized new)
         \<and> set (materialized new) \<inter> keys (DependencyGraph r) = {}))
   \<and> (Resolve n E r update = Some (res2, r2) \<longrightarrow>
      (\<exists>new. calls r2 = calls r @ new \<and> distinct (materialized new)
         \<and> set (materialized new) \<inter> keys (DependencyGraph r) = {}))
   \<and> (lookup (DependencyGraph r) (GetDependencyID E basePath (Source dc) (Profile dc)) \<noteq> None
      \<and> resolveRecursive (Suc n) E r basePath parentID (dc # rest) update = Some (res3, r3) \<longrightarrow>
      (\<exists>outcome new.
         calls r3 = calls r
           @ AddEdgeCall parentID (GetDependencyID E basePath (Source dc) (Profile dc)) outcome # new
         \<and> GetDependencyID E basePath (Source dc) (Profile dc) \<notin> set (materialized new)
         \<and> (outcome = None \<longrightarrow>
              (parentID, GetDependencyID E basePath (Source dc) (Profile dc))
                \<in> edges (DependencyGraph r3))))"
proof (intro conjI impI)
  assume "resolveRecursive n E r basePath parentID dependencies update = Some (res, r')"
  then show "\<exists>new. calls r' = calls r @ new \<and> distinct (materialized new)
         \<and> set (materialized new) \<inter> keys (DependencyGraph r) = {}"
    by (rule resolveRecursive_materialized)
next
  assume run: "Resolve n E r update = Some (res2, r2)"
  show "\<exists>new. calls r2 = calls r @ new \<and> distinct (materialized new)
         \<and> set (materialized new) \<inter> keys (DependencyGraph r) = {}"
  proof (cases "Getwd E")
    case (Inl m)
    with run show ?thesis by (auto simp: Resolve_def)
  next
    case (Inr cwd)
    show ?thesis
    proof (cases "resolveRecursive n E r cwd (Root (DependencyGraph r))
                  (Dependencies (BaseConfig r)) update")
      case None
      with run Inr show ?thesis by (simp add: Resolve_def)
    next
      case (Some p)
      obtain descent r1 where p: "p = (descent, r1)" by (cases p)
      from resolveRecursive_materialized[OF Some[unfolded p]] obtain new
        where new: "calls r1 = calls r @ new" "distinct (materialized new)"
          "set (materialized new) \<inter> keys (DependencyGraph r) = {}"
        by blast
      from run Inr Some p
      have "calls r2 = calls r1 \<or> calls r2 = calls r1 @ [SaveCall (BaseCache r1)]"
        by (auto simp: Resolve_def Let_def split: option.splits if_splits prod.splits)
      then show ?thesis
      proof
        assume "calls r2 = calls r1"
        with new show ?thesis by auto
      next
        assume "calls r2 = calls r1 @ [SaveCall (BaseCache r1)]"
        with new have "calls r2 = calls r @ (new @ [SaveCall (BaseCache r1)])"
          "distinct (materialized (new @ [SaveCall (BaseCache r1)]))"
          "set (materialized (new @ [SaveCall (BaseCache r1)])) \<inter> keys (DependencyGraph r) = {}"
          by auto
        then show ?thesis by blast
      qed
    qed
  qed
next
  define depID where "depID = GetDependencyID E basePath (Source dc) (Profile dc)"
  assume "lookup (DependencyGraph r) (GetDependencyID E basePath (Source dc) (Profile dc)) \<noteq> None
      \<and> resolveRecursive (Suc n) E r basePath parentID (dc # rest) update = Some (res3, r3)"
  then have ex: "lookup (DependencyGraph r) depID \<noteq> None"
    and run: "resolveRecursive (Suc n) E r basePath parentID (dc # rest) update = Some (res3, r3)"
    by (auto simp: depID_def)
  from ex have inkeys: "depID \<in> keys (DependencyGraph r)"
    by (simp add: lookup_None_iff)
  have "\<exists>outcome new.
         calls r3 = calls r @ AddEdgeCall parentID depID outcome # new
         \<and> depID \<notin> set (materialized new)
         \<and> (outcome = None \<longrightarrow> (parentID, depID) \<in> edges (DependencyGraph r3))"
  proof (cases "addEdge (DependencyGraph r) parentID depID")
    case (Inl err)
    define r1 where "r1 = r\<lparr>calls := calls r @ [AddEdgeCall parentID depID (Some err)]\<rparr>"
    show ?thesis
    proof (cases "isCyclicError err \<and> AllowCyclic r")
      case True
      with run ex Inl
      have rest: "resolveRecursive n E r1 basePath parentID rest update = Some (res3, r3)"
        by (simp add: Let_def r1_def depID_def)
      from resolveRecursive_materialized[OF rest] obtain new
        where "calls r3 = calls r1 @ new"
          "set (materialized new) \<inter> keys (DependencyGraph r1) = {}"
        by blast
      with inkeys have "calls r3 = calls r @ AddEdgeCall parentID depID (Some err) # new"
        "depID \<notin> set (materialized new)"
        by (auto simp: r1_def)
      then show ?thesis by blast
    next
      case False
      with run ex Inl have "r3 = r1"
        by (auto simp: Let_def r1_def depID_def split: if_splits)
      then have "calls r3 = calls r @ AddEdgeCall parentID depID (Some err) # []"
        "depID \<notin> set (materialized [])"
        by (auto simp: r1_def)
      then show ?thesis by blast
    qed
  next
    case (Inr g)
    define r1 where
      "r1 = r\<lparr>DependencyGraph := g, calls := calls r @ [AddEdgeCall parentID depID None]\<rparr>"
    from run ex Inr
    have rest: "resolveRecursive n E r1 basePath parentID rest update = Some (res3, r3)"
      by (simp add: Let_def r1_def depID_def)
    from addEdge_edges[OF Inr] addEdge_keys[OF Inr]
    have e1: "(parentID, depID) \<in> edges (DependencyGraph r1)"
      and k1: "depID \<in> keys (DependencyGraph r1)"
      using inkeys by (auto simp: r1_def)
    from resolveRecursive_materialized[OF rest] obtain new
      where "calls r3 = calls r1 @ new"
        "set (materialized new) \<inter> keys (DependencyGraph r1) = {}"
      by blast
    with k1 have "calls r3 = calls r @ AddEdgeCall parentID depID None # new"
      "depID \<notin> set (materialized new)"
      by (auto simp: r1_def)
    moreover from resolveRecursive_edges_mono[OF rest] e1
    have "(parentID, depID) \<in> edges (DependencyGraph r3)" by auto
    ultimately show ?thesis by blast
  qed
  then show "\<exists>outcome new.
         calls r3 = calls r
           @ AddEdgeCall parentID (GetDependencyID E basePath (Source dc) (Profile dc)) outcome # new
         \<and> GetDependencyID E basePath (Source dc) (Profile dc) \<notin> set (materialized new)
         \<and> (outcome = None \<longrightarrow>
              (parentID, GetDependencyID E basePath (Source dc) (Profile dc))
                \<in> edges (DependencyGraph r3))"
    by (simp add: depID_def)
qed

text \<open>
  The diamond: with \<open>P\<close> (and through it \<open>R\<close>) and \<open>Q\<close> in the graph, the declaration of
  \<open>R\<close> by \<open>Q\<close> adds the edge and materializes nothing; \<open>R\<close> is one node, materialized once.
\<close>

theorem materializer_once_per_identity_witness:
  "\<exists>r2 r3.
     resolveRecursive 5 exampleEnv (exampleRun []) ''/work'' ''root''
       [dependsOn ''P'', (dependsOn ''Q'')\<lparr>IgnoreDependencies := Some True\<rparr>] False
       = Some (None, r2)
     \<and> lookup (DependencyGraph r2) ''R'' \<noteq> None
     \<and> resolveRecursive 2 exampleEnv r2 ''/deps/Q'' ''Q'' [dependsOn ''R''] False = Some (None, r3)
     \<and> materialized (calls r3) = [''P'', ''R'', ''Q'']
     \<and> distinct (materialized (calls r3))
     \<and> calls r3 = calls r2 @ [AddEdgeCall ''Q'' ''R'' None]
     \<and> (''P'', ''R'') \<in> edges (DependencyGraph r3)
     \<and> (''Q'', ''R'') \<in> edges (DependencyGraph r3)
     \<and> length (filter (\<lambda>(k, nd). k = ''R'') (Nodes (DependencyGraph r3))) = 1"
proof -
  have "\<exists>r2 r3.
     resolveRecursive 5 exampleEnv (exampleRun []) ''/work'' ''root''
       [dependsOn ''P'', (dependsOn ''Q'')\<lparr>IgnoreDependencies := Some True\<rparr>] False
       = Some (None, r2)
     \<and> lookup (DependencyGraph r2) ''R'' \<noteq> None
     \<and> calls r2 = [ResolveDependencyCall ''P'', ResolveDependencyCall ''R'',
          ResolveDependencyCall ''Q'']
     \<and> resolveRecursive 2 exampleEnv r2 ''/deps/Q'' ''Q'' [dependsOn ''R''] False = Some (None, r3)
     \<and> calls r3 = calls r2 @ [AddEdgeCall ''Q'' ''R'' None]
     \<and> (''P'', ''R'') \<in> edges (DependencyGraph r3)
     \<and> length (filter (\<lambda>(k, nd). k = ''R'') (Nodes (DependencyGraph r3))) = 1"
    by (simp add: run_eval edges_def)
  then obtain r2 r3 where
    a: "resolveRecursive 5 exampleEnv (exampleRun []) ''/work'' ''root''
       [dependsOn ''P'', (dependsOn ''Q'')\<lparr>IgnoreDependencies := Some True\<rparr>] False
       = Some (None, r2)"
    and b: "lookup (DependencyGraph r2) ''R'' \<noteq> None"
    and c: "calls r2 = [ResolveDependencyCall ''P'', ResolveDependencyCall ''R'',
          ResolveDependencyCall ''Q'']"
    and d: "resolveRecursive 2 exampleEnv r2 ''/deps/Q'' ''Q'' [dependsOn ''R''] False
       = Some (None, r3)"
    and j: "calls r3 = calls r2 @ [AddEdgeCall ''Q'' ''R'' None]"
    and e: "(''P'', ''R'') \<in> edges (DependencyGraph r3)"
    and f: "length (filter (\<lambda>(k, nd). k = ''R'') (Nodes (DependencyGraph r3))) = 1"
    by blast
  have id: "GetDependencyID exampleEnv ''/deps/Q'' (Source (dependsOn ''R''))
      (Profile (dependsOn ''R'')) = ''R''"
    by (simp add: example_eval)
  from b have b': "lookup (DependencyGraph r2)
      (GetDependencyID exampleEnv ''/deps/Q'' (Source (dependsOn ''R'')) (Profile (dependsOn ''R'')))
      \<noteq> None"
    by (simp add: id)
  from d have d': "resolveRecursive (Suc 1) exampleEnv r2 ''/deps/Q'' ''Q'' [dependsOn ''R''] False
       = Some (None, r3)"
    by (simp only: Suc_1)
  from materializer_once_per_identity[where E = exampleEnv and r = r2 and basePath = "''/deps/Q''"
      and dc = "dependsOn ''R''" and parentID = "''Q''" and n = 1 and rest = "[]"
      and update = False and ?res3.0 = None and ?r3.0 = r3,
      THEN conjunct2, THEN conjunct2, THEN mp, OF conjI[OF b' d'], unfolded id]
  obtain outcome new where
    g: "calls r3 = calls r2 @ AddEdgeCall ''Q'' ''R'' outcome # new"
    and h: "''R'' \<notin> set (materialized new)"
    and i: "outcome = None \<longrightarrow> (''Q'', ''R'') \<in> edges (DependencyGraph r3)"
    by blast
  from j g have "outcome = None" by simp
  with i have "(''Q'', ''R'') \<in> edges (DependencyGraph r3)" by simp
  with a b c d e f j show ?thesis
    by (intro exI[of _ r2] exI[of _ r3]) simp
qed

text \<open>
  With cycle tolerance disabled, a cycle error of \<^verbatim>\<open>addEdge\<close> found in the trace of a run
  of \<open>Resolve\<close> is the last call of the run and the error the run returns.
\<close>

lemma Resolve_cycle_error_trace:
  assumes "\<not> AllowCyclic r"
    and "Resolve n E r update = Some (res, r')"
    and "calls r' = calls r @ new"
    and "AddEdgeCall a b (Some err) \<in> set new"
    and "isCyclicError err"
  shows "res = Inl err \<and> last new = AddEdgeCall a b (Some err) \<and> savedCaches new = []"
proof (cases "Getwd E")
  case (Inl m)
  with assms show ?thesis by (simp add: Resolve_def)
next
  case (Inr cwd)
  show ?thesis
  proof (cases "resolveRecursive n E r cwd (Root (DependencyGraph r))
                  (Dependencies (BaseConfig r)) update")
    case None
    with assms Inr show ?thesis by (simp add: Resolve_def)
  next
    case (Some p)
    obtain descent r1 where p: "p = (descent, r1)" by (cases p)
    from resolveRecursive_cycle_abort[OF assms(1) Some[unfolded p]] obtain new1
      where new1: "calls r1 = calls r @ new1"
        and d: "case descent of
                None \<Rightarrow> cycleErrors new1 = []
              | Some e \<Rightarrow>
                  if isCyclicError e
                  then \<exists>pre a b. new1 = pre @ [AddEdgeCall a b (Some e)] \<and> cycleErrors pre = []
                  else cycleErrors new1 = []"
      by blast
    from resolveRecursive_no_save[OF Some[unfolded p]] new1
    have ns: "savedCaches new1 = []" by auto
    from cycleErrors_member[OF assms(4,5)] have mem: "err \<in> set (cycleErrors new)" .
    show ?thesis
    proof (cases descent)
      case None
      with assms(2) Inr Some p have "\<exists>g. calls r' = calls r1 @ [SaveCall (BaseCache r1)]"
        by (auto simp: Resolve_def Let_def split: option.splits prod.splits)
      with new1 assms(3) have "new = new1 @ [SaveCall (BaseCache r1)]" by auto
      with d None mem show ?thesis by simp
    next
      case (Some e)
      with assms(2) Inr \<open>resolveRecursive n E r cwd (Root (DependencyGraph r))
                  (Dependencies (BaseConfig r)) update = Some p\<close> p
      have r': "calls r' = calls r1"
        and res: "res = (if isCyclicError e then Inl e
                         else Inl (Wrap e ''resolve dependencies recursive''))"
        by (auto simp: Resolve_def split: if_splits)
      from r' new1 assms(3) have eq: "new = new1" by simp
      show ?thesis
      proof (cases "isCyclicError e")
        case False
        with d Some mem eq show ?thesis by simp
      next
        case True
        with d Some obtain pre a' b' where
          pre: "new1 = pre @ [AddEdgeCall a' b' (Some e)]" "cycleErrors pre = []"
          by auto
        from assms(4) eq pre have "AddEdgeCall a b (Some err) \<in> set pre
            \<or> AddEdgeCall a b (Some err) = AddEdgeCall a' b' (Some e)"
          by auto
        then have same: "AddEdgeCall a b (Some err) = AddEdgeCall a' b' (Some e)"
          using cycleErrors_member[of a b err pre] assms(5) pre(2) by auto
        with res True pre eq ns show ?thesis by simp
      qed
    qed
  qed
qed

text \<open>
  C2. With cycle tolerance disabled: (1) if during a run of \<open>Resolve\<close> a call of
  \<^verbatim>\<open>addEdge\<close> returns the cycle error, that call is the last thing the run does (nothing is
  saved) and \<open>Resolve\<close> returns no list and that very error, not wrapped; (2) where
  \<^verbatim>\<open>addEdge\<close> for an existing node returns the cycle error, the traversal returns that
  error at once, whatever fuel is left; (3, 4) the traversal hands on unchanged the error
  of a nested call, and after a declaration that went through it returns whatever the rest
  of the declarations return; (5) \<open>Resolve\<close> returns the cycle error of the descent as it
  is, with no list.
\<close>

theorem Resolve_cycle_error_verbatim:
  "(\<not> AllowCyclic r \<and> Resolve n E r update = Some (res, r') \<and> calls r' = calls r @ new
      \<and> AddEdgeCall a b (Some err) \<in> set new \<and> isCyclicError err
     \<longrightarrow> res = Inl err \<and> last new = AddEdgeCall a b (Some err) \<and> savedCaches new = [])
   \<and> (depID = GetDependencyID E basePath (Source dc) (Profile dc)
      \<and> lookup (DependencyGraph s) depID \<noteq> None
      \<and> addEdge (DependencyGraph s) parentID depID = Inl err
      \<and> isCyclicError err \<and> \<not> AllowCyclic s
     \<longrightarrow> resolveRecursive (Suc k) E s basePath parentID (dc # rest) update0
          = Some (Some err, s\<lparr>calls := calls s @ [AddEdgeCall parentID depID (Some err)]\<rparr>))
   \<and> (depID = GetDependencyID E basePath (Source dc) (Profile dc)
      \<and> lookup (DependencyGraph s) depID \<noteq> None
      \<and> addEdge (DependencyGraph s) parentID depID = Inr g
     \<longrightarrow> resolveRecursive (Suc k) E s basePath parentID (dc # rest) update0
          = resolveRecursive k E
              (s\<lparr>DependencyGraph := g, calls := calls s @ [AddEdgeCall parentID depID None]\<rparr>)
              basePath parentID rest update0)
   \<and> (depID = GetDependencyID E basePath (Source dc) (Profile dc)
      \<and> lookup (DependencyGraph s) depID = None
      \<and> s1 = s\<lparr>calls := calls s @ [ResolveDependencyCall depID]\<rparr>
      \<and> resolveDependency E s1 basePath dc update0 = Inr dependency
      \<and> insertNodeAt (DependencyGraph s) parentID depID dependency = Inr g
     \<longrightarrow>
       (if (IgnoreDependencies dc = None \<or> IgnoreDependencies dc = Some False)
           \<and> Dependencies (Config dependency) \<noteq> []
        then
          (resolveRecursive k E (s1\<lparr>DependencyGraph := g\<rparr>) (LocalPath dependency) depID
               (Dependencies (Config dependency)) update0 = Some (Some e, s3)
             \<longrightarrow> resolveRecursive (Suc k) E s basePath parentID (dc # rest) update0
                  = Some (Some e, s3))
          \<and> (resolveRecursive k E (s1\<lparr>DependencyGraph := g\<rparr>) (LocalPath dependency) depID
               (Dependencies (Config dependency)) update0 = Some (None, s3)
             \<longrightarrow> resolveRecursive (Suc k) E s basePath parentID (dc # rest) update0
                  = resolveRecursive k E s3 basePath parentID rest update0)
        else
          resolveRecursive (Suc k) E s basePath parentID (dc # rest) update0
            = resolveRecursive k E (s1\<lparr>DependencyGraph := g\<rparr>) basePath parentID rest update0))
   \<and> (Getwd E = Inr cwd
      \<and> resolveRecursive n E r cwd (Root (DependencyGraph r)) (Dependencies (BaseConfig r)) update
           = Some (Some err, r1)
      \<and> isCyclicError err
     \<longrightarrow> Resolve n E r update = Some (Inl err, r1))"
proof (intro conjI impI)
  assume "\<not> AllowCyclic r \<and> Resolve n E r update = Some (res, r') \<and> calls r' = calls r @ new
      \<and> AddEdgeCall a b (Some err) \<in> set new \<and> isCyclicError err"
  then show "res = Inl err" "last new = AddEdgeCall a b (Some err)" "savedCaches new = []"
    using Resolve_cycle_error_trace[of r n E update res r' new a b err] by simp_all
next
  assume "depID = GetDependencyID E basePath (Source dc) (Profile dc)
      \<and> lookup (DependencyGraph s) depID \<noteq> None
      \<and> addEdge (DependencyGraph s) parentID depID = Inl err
      \<and> isCyclicError err \<and> \<not> AllowCyclic s"
  then show "resolveRecursive (Suc k) E s basePath parentID (dc # rest) update0
          = Some (Some err, s\<lparr>calls := calls s @ [AddEdgeCall parentID depID (Some err)]\<rparr>)"
    by (auto simp: Let_def)
next
  assume "depID = GetDependencyID E basePath (Source dc) (Profile dc)
      \<and> lookup (DependencyGraph s) depID \<noteq> None
      \<and> addEdge (DependencyGraph s) parentID depID = Inr g"
  then show "resolveRecursive (Suc k) E s basePath parentID (dc # rest) update0
          = resolveRecursive k E
              (s\<lparr>DependencyGraph := g, calls := calls s @ [AddEdgeCall parentID depID None]\<rparr>)
              basePath parentID rest update0"
    by (auto simp: Let_def)
next
  assume a: "depID = GetDependencyID E basePath (Source dc) (Profile dc)
      \<and> lookup (DependencyGraph s) depID = None
      \<and> s1 = s\<lparr>calls := calls s @ [ResolveDependencyCall depID]\<rparr>
      \<and> resolveDependency E s1 basePath dc update0 = Inr dependency
      \<and> insertNodeAt (DependencyGraph s) parentID depID dependency = Inr g"
  show "if (IgnoreDependencies dc = None \<or> IgnoreDependencies dc = Some False)
           \<and> Dependencies (Config dependency) \<noteq> []
        then
          (resolveRecursive k E (s1\<lparr>DependencyGraph := g\<rparr>) (LocalPath dependency) depID
               (Dependencies (Config dependency)) update0 = Some (Some e, s3)
             \<longrightarrow> resolveRecursive (Suc k) E s basePath parentID (dc # rest) update0
                  = Some (Some e, s3))
          \<and> (resolveRecursive k E (s1\<lparr>DependencyGraph := g\<rparr>) (LocalPath dependency) depID
               (Dependencies (Config dependency)) update0 = Some (None, s3)
             \<longrightarrow> resolveRecursive (Suc k) E s basePath parentID (dc # rest) update0
                  = resolveRecursive k E s3 basePath parentID rest update0)
        else
          resolveRecursive (Suc k) E s basePath parentID (dc # rest) update0
            = resolveRecursive k E (s1\<lparr>DependencyGraph := g\<rparr>) basePath parentID rest update0"
  proof (cases "(IgnoreDependencies dc = None \<or> IgnoreDependencies dc = Some False)
           \<and> Dependencies (Config dependency) \<noteq> []")
    case True
    with a show ?thesis by (auto simp: Let_def)
  next
    case False
    with a show ?thesis by (auto simp: Let_def)
  qed
next
  assume "Getwd E = Inr cwd
      \<and> resolveRecursive n E r cwd (Root (DependencyGraph r)) (Dependencies (BaseConfig r)) update
           = Some (Some err, r1)
      \<and> isCyclicError err"
  then show "Resolve n E r update = Some (Inl err, r1)"
    by (simp add: Resolve_def)
qed

text \<open>
  The cycle \<open>A\<close>, \<open>B\<close>, \<open>A\<close>: the error found two levels down is returned by the nested
  call, by the call for the root and by \<open>Resolve\<close>.
\<close>

theorem Resolve_cycle_error_verbatim_witness:
  "\<exists>dep g s3.
     resolveDependency exampleEnv
        ((exampleRun [''A''])\<lparr>calls := [ResolveDependencyCall ''A'']\<rparr>)
        ''/work'' (dependsOn ''A'') False = Inr dep
     \<and> insertNodeAt (DependencyGraph (exampleRun [''A''])) ''root'' ''A'' dep = Inr g
     \<and> resolveRecursive 9 exampleEnv
          ((exampleRun [''A''])\<lparr>calls := [ResolveDependencyCall ''A''], DependencyGraph := g\<rparr>)
          (LocalPath dep) ''A'' (Dependencies (Config dep)) False
         = Some (Some (CyclicError ''B'' ''A''), s3)
     \<and> Resolve 10 exampleEnv (exampleRun [''A'']) False = Some (Inl (CyclicError ''B'' ''A''), s3)
     \<and> calls s3 = [ResolveDependencyCall ''A'', ResolveDependencyCall ''B'',
                    AddEdgeCall ''B'' ''A'' (Some (CyclicError ''B'' ''A''))]
     \<and> last (calls s3) = AddEdgeCall ''B'' ''A'' (Some (CyclicError ''B'' ''A''))
     \<and> savedCaches (calls s3) = []"
proof -
  let ?r = "exampleRun [''A'']"
  let ?s1 = "?r\<lparr>calls := calls ?r @ [ResolveDependencyCall ''A'']\<rparr>"
  let ?err = "CyclicError ''B'' ''A''"
  have "\<exists>dep g s3.
     resolveDependency exampleEnv ?s1 ''/work'' (dependsOn ''A'') False = Inr dep
     \<and> insertNodeAt (DependencyGraph ?r) ''root'' ''A'' dep = Inr g
     \<and> IgnoreDependencies (dependsOn ''A'') = None
     \<and> Dependencies (Config dep) \<noteq> []
     \<and> resolveRecursive 9 exampleEnv (?s1\<lparr>DependencyGraph := g\<rparr>)
          (LocalPath dep) ''A'' (Dependencies (Config dep)) False = Some (Some ?err, s3)
     \<and> calls s3 = [ResolveDependencyCall ''A'', ResolveDependencyCall ''B'',
                    AddEdgeCall ''B'' ''A'' (Some ?err)]"
    by (simp add: run_eval)
  then obtain dep g s3 where
    rd: "resolveDependency exampleEnv ?s1 ''/work'' (dependsOn ''A'') False = Inr dep"
    and ins: "insertNodeAt (DependencyGraph ?r) ''root'' ''A'' dep = Inr g"
    and nest: "IgnoreDependencies (dependsOn ''A'') = None" "Dependencies (Config dep) \<noteq> []"
    and inner: "resolveRecursive 9 exampleEnv (?s1\<lparr>DependencyGraph := g\<rparr>)
          (LocalPath dep) ''A'' (Dependencies (Config dep)) False = Some (Some ?err, s3)"
    and tr: "calls s3 = [ResolveDependencyCall ''A'', ResolveDependencyCall ''B'',
                    AddEdgeCall ''B'' ''A'' (Some ?err)]"
    by blast
  have id: "''A'' = GetDependencyID exampleEnv ''/work'' (Source (dependsOn ''A''))
      (Profile (dependsOn ''A''))"
    by (simp add: example_eval)
  have fresh: "lookup (DependencyGraph ?r) ''A'' = None"
    by (simp add: example_eval graph_eval)
  note inst = Resolve_cycle_error_verbatim[where E = exampleEnv and r = ?r and update = False
      and n = 10 and err = ?err and cwd = "''/work''" and ?r1.0 = s3
      and basePath = "''/work''" and dc = "dependsOn ''A''" and depID = "''A''" and s = ?r
      and ?s1.0 = ?s1 and dependency = dep and g = g and parentID = "''root''" and k = 9
      and rest = "[]" and ?update0.0 = False and e = ?err and ?s3.0 = s3
      and res = "Inl ?err" and r' = s3 and new = "calls s3" and a = "''B''" and b = "''A''"]
  from inst[THEN conjunct2, THEN conjunct2, THEN conjunct2, THEN conjunct1, THEN mp,
      OF conjI[OF id conjI[OF fresh conjI[OF refl conjI[OF rd ins]]]]] nest inner
  have "resolveRecursive (Suc 9) exampleEnv ?r ''/work'' ''root'' [dependsOn ''A''] False
      = Some (Some ?err, s3)"
    by simp
  then have desc: "resolveRecursive 10 exampleEnv ?r ''/work'' (Root (DependencyGraph ?r))
      (Dependencies (BaseConfig ?r)) False = Some (Some ?err, s3)"
    by (simp add: exampleRun_def newGraph_def)
  have cwd: "Getwd exampleEnv = Inr ''/work''" by (simp add: exampleEnv_def)
  from inst[THEN conjunct2, THEN conjunct2, THEN conjunct2, THEN conjunct2, THEN mp,
      OF conjI[OF cwd conjI[OF desc]]]
  have run: "Resolve 10 exampleEnv ?r False = Some (Inl ?err, s3)" by simp
  have "\<not> AllowCyclic ?r" "calls s3 = calls ?r @ calls s3"
    "AddEdgeCall ''B'' ''A'' (Some ?err) \<in> set (calls s3)"
    by (simp_all add: exampleRun_def tr)
  with inst[THEN conjunct1] run
  have "last (calls s3) = AddEdgeCall ''B'' ''A'' (Some ?err)" "savedCaches (calls s3) = []"
    by simp_all
  with rd ins inner run tr show ?thesis
    by (intro exI[of _ dep] exI[of _ g] exI[of _ s3]) (simp add: exampleRun_def)
qed

text \<open>
  C3. With cycle tolerance enabled, a cycle error of \<^verbatim>\<open>addEdge\<close> for an existing node is
  swallowed: the traversal goes on with the remaining declarations from the same graph.
  An error of \<^verbatim>\<open>addEdge\<close> that is not the cycle error is returned at once, whatever the
  flag. With tolerance enabled no error returned by \<open>Resolve\<close> is a cycle error.
\<close>

theorem resolveRecursive_swallows_cycle:
  "(AllowCyclic r \<and> lookup (DependencyGraph r) (GetDependencyID E basePath (Source dc) (Profile dc)) \<noteq> None
      \<and> addEdge (DependencyGraph r) parentID (GetDependencyID E basePath (Source dc) (Profile dc))
            = Inl err
      \<and> isCyclicError err
     \<longrightarrow> resolveRecursive (Suc n) E r basePath parentID (dc # rest) update
          = resolveRecursive n E
              (r\<lparr>calls := calls r @ [AddEdgeCall parentID
                   (GetDependencyID E basePath (Source dc) (Profile dc)) (Some err)]\<rparr>)
              basePath parentID rest update)
   \<and> (lookup (DependencyGraph r) (GetDependencyID E basePath (Source dc) (Profile dc)) \<noteq> None
      \<and> addEdge (DependencyGraph r) parentID (GetDependencyID E basePath (Source dc) (Profile dc))
            = Inl err
      \<and> \<not> isCyclicError err
     \<longrightarrow> resolveRecursive (Suc n) E r basePath parentID (dc # rest) update
          = Some (Some err,
              r\<lparr>calls := calls r @ [AddEdgeCall parentID
                   (GetDependencyID E basePath (Source dc) (Profile dc)) (Some err)]\<rparr>))
   \<and> (AllowCyclic r0 \<and> Resolve m E r0 update0 = Some (Inl err0, r1) \<longrightarrow> \<not> isCyclicError err0)"
proof (intro conjI impI)
  assume "AllowCyclic r0 \<and> Resolve m E r0 update0 = Some (Inl err0, r1)"
  then have a: "AllowCyclic r0" and run: "Resolve m E r0 update0 = Some (Inl err0, r1)" by auto
  show "\<not> isCyclicError err0"
  proof (cases "Getwd E")
    case (Inl msg)
    with run show ?thesis by (auto simp: Resolve_def)
  next
    case (Inr cwd)
    show ?thesis
    proof (cases "resolveRecursive m E r0 cwd (Root (DependencyGraph r0))
                  (Dependencies (BaseConfig r0)) update0")
      case None
      with run Inr show ?thesis by (simp add: Resolve_def)
    next
      case (Some p)
      obtain descent r2 where p: "p = (descent, r2)" by (cases p)
      show ?thesis
      proof (cases descent)
        case None
        with run Inr Some p show ?thesis
          by (auto simp: Resolve_def Let_def buildDependencyQueue_def
                split: option.splits prod.splits dest: drainQueue_not_cyclic)
      next
        case e: (Some e)
        from resolveRecursive_tolerant[OF a Some[unfolded p e]] have "\<not> isCyclicError e" .
        with run Inr Some p e show ?thesis
          by (auto simp: Resolve_def)
      qed
    qed
  qed
qed (simp_all add: Let_def)

theorem resolveRecursive_swallows_cycle_witness:
  "resolveRecursive 2 exampleEnv ((exampleRun [])\<lparr>AllowCyclic := True\<rparr>) ''/work'' ''root''
       [dependsOn ''root''] False
     = Some (None, (exampleRun [])\<lparr>AllowCyclic := True,
          calls := [AddEdgeCall ''root'' ''root'' (Some (CyclicError ''root'' ''root''))]\<rparr>)
   \<and> resolveRecursive 2 exampleEnv (exampleRun []) ''/work'' ''ghost'' [dependsOn ''root''] False
     = Some (Some (Err ''fromID ghost does not exist''), (exampleRun [])\<lparr>
          calls := [AddEdgeCall ''ghost'' ''root'' (Some (Err ''fromID ghost does not exist''))]\<rparr>)
   \<and> map_option fst (Resolve 10 loadFailEnv ((exampleRun [''A''])\<lparr>AllowCyclic := True\<rparr>) False)
     = Some (Inl (Wrap (Wrap (Err ''no such file'') ''loading config for dependency A'')
          ''resolve dependencies recursive''))
   \<and> \<not> isCyclicError (Wrap (Wrap (Err ''no such file'') ''loading config for dependency A'')
          ''resolve dependencies recursive'')
   \<and> map_option (\<lambda>(res, r'). (map_sum id (map ID) res, cycleErrors (calls r')))
       (Resolve 10 exampleEnv ((exampleRun [''A''])\<lparr>AllowCyclic := True\<rparr>) False)
     = Some (Inr [''B'', ''A''], [CyclicError ''B'' ''A''])"
proof -
  let ?r = "(exampleRun [])\<lparr>AllowCyclic := True\<rparr>"
  have id: "GetDependencyID exampleEnv ''/work'' (Source (dependsOn ''root''))
      (Profile (dependsOn ''root'')) = ''root''"
    by (simp add: example_eval)
  note inst = resolveRecursive_swallows_cycle[where E = exampleEnv and basePath = "''/work''"
      and dc = "dependsOn ''root''" and rest = "[]" and update = False and n = 1, unfolded id]
  have 1: "lookup (DependencyGraph ?r) ''root'' \<noteq> None
      \<and> addEdge (DependencyGraph ?r) ''root'' ''root'' = Inl (CyclicError ''root'' ''root'')"
    by (simp add: example_eval graph_eval)
  have 2: "lookup (DependencyGraph (exampleRun [])) ''root'' \<noteq> None
      \<and> addEdge (DependencyGraph (exampleRun [])) ''ghost'' ''root''
          = Inl (Err ''fromID ghost does not exist'')"
    by (simp add: example_eval graph_eval)
  obtain r1 where 3: "Resolve 10 loadFailEnv ((exampleRun [''A''])\<lparr>AllowCyclic := True\<rparr>) False
     = Some (Inl (Wrap (Wrap (Err ''no such file'') ''loading config for dependency A'')
          ''resolve dependencies recursive''), r1)"
    by (simp add: run_eval loadFailEnv_def)
  have 4: "map_option (\<lambda>(res, r'). (map_sum id (map ID) res, cycleErrors (calls r')))
       (Resolve 10 exampleEnv ((exampleRun [''A''])\<lparr>AllowCyclic := True\<rparr>) False)
     = Some (Inr [''B'', ''A''], [CyclicError ''B'' ''A''])"
    by (simp add: run_eval)
  from inst[where r = ?r and parentID = "''root''" and err = "CyclicError ''root'' ''root''"] 1
  have a: "resolveRecursive 2 exampleEnv ?r ''/work'' ''root'' [dependsOn ''root''] False
     = Some (None, (exampleRun [])\<lparr>AllowCyclic := True,
          calls := [AddEdgeCall ''root'' ''root'' (Some (CyclicError ''root'' ''root''))]\<rparr>)"
    by (simp add: eval_nat_numeral exampleRun_def)
  from inst[where r = "exampleRun []" and parentID = "''ghost''"
      and err = "Err ''fromID ghost does not exist''"] 2
  have b: "resolveRecursive 2 exampleEnv (exampleRun []) ''/work'' ''ghost'' [dependsOn ''root''] False
     = Some (Some (Err ''fromID ghost does not exist''), (exampleRun [])\<lparr>
          calls := [AddEdgeCall ''ghost'' ''root'' (Some (Err ''fromID ghost does not exist''))]\<rparr>)"
    by (simp add: eval_nat_numeral exampleRun_def)
  from resolveRecursive_swallows_cycle[where E = loadFailEnv
      and ?r0.0 = "(exampleRun [''A''])\<lparr>AllowCyclic := True\<rparr>" and m = 10
      and ?update0.0 = False and ?r1.0 = r1] 3
  have c: "\<not> isCyclicError (Wrap (Wrap (Err ''no such file'') ''loading config for dependency A'')
          ''resolve dependencies recursive'')"
    by simp
  from a b c 3 4 show ?thesis by simp
qed

section \<open>Lemmas on the graph store\<close>

text \<open>The depth-first search: what it returns satisfies the predicate, and when it returns
  nothing, nothing reachable satisfies it.\<close>

lemma lookup_Some_keys: "lookup g k = Some nd \<Longrightarrow> k \<in> keys g"
  using lookup_None_iff[of g k] by auto

lemma edges_source: "(p, c) \<in> edges g \<Longrightarrow> p \<in> keys g"
  by (auto simp: edges_def dest: lookup_Some_keys)

lemma finite_edges: "finite (edges g)"
proof -
  have "edges g \<subseteq> keys g \<times> (\<Union>(k, nd) \<in> set (Nodes g). set (children nd))"
  proof
    fix e assume "e \<in> edges g"
    then obtain p c nd where e: "e = (p, c)" and nd: "lookup g p = Some nd"
      and c: "c \<in> set (children nd)"
      by (auto simp: edges_def)
    from nd have mem: "(p, nd) \<in> set (Nodes g)"
      by (auto simp: lookup_def dest: map_of_SomeD)
    then have "p \<in> keys g" by (force simp: keys_def)
    moreover from mem c have "c \<in> (\<Union>(k, nd) \<in> set (Nodes g). set (children nd))"
      by blast
    ultimately show "e \<in> keys g \<times> (\<Union>(k, nd) \<in> set (Nodes g). set (children nd))"
      using e by simp
  qed
  moreover have "finite (keys g \<times> (\<Union>(k, nd) \<in> set (Nodes g). set (children nd)))"
    by (auto simp: keys_def)
  ultimately show ?thesis by (rule finite_subset)
qed

lemma presentChildren_subset: "set (presentChildren g k) \<subseteq> keys g"
  by (auto simp: presentChildren_def lookup_None_iff split: option.splits)

lemma presentChildren_closed:
  assumes "\<forall>(p, c) \<in> edges g. c \<in> keys g" and "lookup g k = Some nd"
  shows "presentChildren g k = children nd"
proof -
  from assms have "\<forall>c \<in> set (children nd). lookup g c \<noteq> None"
    by (auto simp: edges_def lookup_None_iff)
  with assms(2) show ?thesis
    by (simp add: presentChildren_def)
qed

lemma dfsFind_Some:
  "dfsFind g P visited todo = Some x \<Longrightarrow> P x \<and> x \<in> keys g"
  by (induction g P visited todo rule: dfsFind.induct)
     (auto simp: dfsFind.simps lookup_None_iff split: if_splits)

lemma dfsFind_None:
  "dfsFind g P visited todo = None \<Longrightarrow>
     \<exists>V. set visited \<subseteq> V \<and> set todo \<inter> keys g \<subseteq> V
        \<and> (\<forall>x \<in> V - set visited. \<not> P x \<and> set (presentChildren g x) \<subseteq> V)"
proof (induction g P visited todo rule: dfsFind.induct)
  case (1 g P visited)
  show ?case by (rule exI[of _ "set visited"]) simp
next
  case (2 g P visited x todo)
  show ?case
  proof (cases "x \<in> set visited \<or> lookup g x = None")
    case True
    with "2.prems" have "dfsFind g P visited todo = None" by (simp add: dfsFind.simps)
    from "2.IH"(1)[OF True this] obtain V where
      V: "set visited \<subseteq> V" "set todo \<inter> keys g \<subseteq> V"
         "\<forall>x \<in> V - set visited. \<not> P x \<and> set (presentChildren g x) \<subseteq> V"
      by blast
    from True V have "set (x # todo) \<inter> keys g \<subseteq> V"
      by (auto simp: lookup_None_iff)
    with V show ?thesis by blast
  next
    case False
    with "2.prems" have nP: "\<not> P x"
      and rec: "dfsFind g P (x # visited) (presentChildren g x @ todo) = None"
      by (auto simp: dfsFind.simps split: if_splits)
    from "2.IH"(2)[OF False nP rec] obtain V where
      V: "set (x # visited) \<subseteq> V" "set (presentChildren g x @ todo) \<inter> keys g \<subseteq> V"
         "\<forall>y \<in> V - set (x # visited). \<not> P y \<and> set (presentChildren g y) \<subseteq> V"
      by blast
    from V(2) presentChildren_subset[of g x] have pc: "set (presentChildren g x) \<subseteq> V"
      by auto
    have "set visited \<subseteq> V" using V(1) by auto
    moreover have "set (x # todo) \<inter> keys g \<subseteq> V" using V(1,2) by auto
    moreover have "\<forall>y \<in> V - set visited. \<not> P y \<and> set (presentChildren g y) \<subseteq> V"
      using V(3) nP pc by auto
    ultimately show ?thesis by blast
  qed
qed

lemma dfsFind_None_reach:
  assumes "dfsFind g P [] [s] = None" and "s \<in> keys g"
    and closed: "\<forall>(p, c) \<in> edges g. c \<in> keys g"
    and "(s, y) \<in> (edges g)\<^sup>*"
  shows "\<not> P y"
proof -
  from dfsFind_None[OF assms(1)] assms(2) obtain V where
    s: "s \<in> V" and V: "\<forall>x \<in> V. \<not> P x \<and> set (presentChildren g x) \<subseteq> V"
    by auto
  from assms(4) have "y \<in> V"
  proof (induction rule: rtrancl_induct)
    case base
    show ?case by (rule s)
  next
    case (step y z)
    from step(2) obtain nd where nd: "lookup g y = Some nd" "z \<in> set (children nd)"
      by (auto simp: edges_def)
    with presentChildren_closed[OF closed nd(1)] have "z \<in> set (presentChildren g y)"
      by simp
    with V step(3) show ?case by auto
  qed
  with V show ?thesis by auto
qed

text \<open>In a well-formed graph with a node besides the root, \<open>getNextLeaf\<close> from the root is a
  leaf other than the root.\<close>

lemma leaf_exists:
  assumes closed: "\<forall>(p, c) \<in> edges g. c \<in> keys g" and acyc: "acyclic (edges g)"
  shows "k \<in> keys g \<Longrightarrow> \<exists>y. (k, y) \<in> (edges g)\<^sup>* \<and> y \<in> keys g \<and> presentChildren g y = []"
proof -
  have "wf ((edges g)\<inverse>)"
    using finite_edges acyc by (rule finite_acyclic_wf_converse)
  then show "k \<in> keys g \<Longrightarrow> \<exists>y. (k, y) \<in> (edges g)\<^sup>* \<and> y \<in> keys g \<and> presentChildren g y = []"
  proof (induction k rule: wf_induct_rule)
    case (less k)
    from less.prems obtain nd where nd: "lookup g k = Some nd"
      using lookup_None_iff[of g k] by auto
    show ?case
    proof (cases "children nd")
      case Nil
      with presentChildren_closed[OF closed nd] less.prems show ?thesis by auto
    next
      case (Cons c cs)
      with nd have e: "(k, c) \<in> edges g" by (auto simp: edges_def)
      with closed have "c \<in> keys g" by auto
      with less.IH[of c] e obtain y where
        "(c, y) \<in> (edges g)\<^sup>*" "y \<in> keys g" "presentChildren g y = []"
        by auto
      with e show ?thesis by (blast intro: converse_rtrancl_into_rtrancl)
    qed
  qed
qed

lemma wellFormed_card:
  assumes "wellFormed g"
  shows "card (keys g) = length (Nodes g)"
proof -
  from assms have "distinct (map fst (Nodes g))" by (simp add: wellFormed_def)
  from distinct_card[OF this] show ?thesis by (simp add: keys_def)
qed

lemma wellFormed_other_key:
  assumes "wellFormed g" and "length (Nodes g) > 1"
  shows "\<exists>k \<in> keys g. k \<noteq> Root g"
proof (rule ccontr)
  assume "\<not> (\<exists>k \<in> keys g. k \<noteq> Root g)"
  then have "keys g \<subseteq> {Root g}" by auto
  then have "card (keys g) \<le> card {Root g}" by (intro card_mono) auto
  with wellFormed_card[OF assms(1)] assms(2) show False by simp
qed

lemma wellFormed_only_root:
  assumes "wellFormed g" and "\<not> length (Nodes g) > 1"
  shows "keys g = {Root g}"
proof -
  from assms(1) have r: "Root g \<in> keys g" by (simp add: wellFormed_def)
  have fin: "finite (keys g)" by (simp add: keys_def)
  from wellFormed_card[OF assms(1)] assms(2) have "card (keys g) \<le> Suc 0" by simp
  with fin have "\<forall>a \<in> keys g. \<forall>b \<in> keys g. a = b"
    by (simp add: card_le_Suc0_iff_eq)
  with r show ?thesis by auto
qed

lemma getNextLeaf_leaf:
  assumes wf: "wellFormed g" and other: "k \<in> keys g" "k \<noteq> Root g"
  shows "getNextLeaf g (Root g) \<noteq> Root g \<and> getNextLeaf g (Root g) \<in> keys g
         \<and> presentChildren g (getNextLeaf g (Root g)) = []"
proof -
  from wf have closed: "\<forall>(p, c) \<in> edges g. c \<in> keys g" and acyc: "acyclic (edges g)"
    and root: "Root g \<in> keys g" and reach: "(Root g, k) \<in> (edges g)\<^sup>*"
    using other by (auto simp: wellFormed_def)
  from reach other(2) obtain c where c: "(Root g, c) \<in> edges g" "(c, k) \<in> (edges g)\<^sup>*"
    by (auto elim: converse_rtranclE)
  with closed have "c \<in> keys g" by auto
  from leaf_exists[OF closed acyc this] obtain y where
    y: "(c, y) \<in> (edges g)\<^sup>*" "y \<in> keys g" "presentChildren g y = []"
    by blast
  have "y \<noteq> Root g"
  proof
    assume "y = Root g"
    with c(1) y(1) have "(Root g, Root g) \<in> (edges g)\<^sup>+"
      by (auto intro: rtrancl_into_trancl2)
    with acyc show False by (auto simp: acyclic_def)
  qed
  with y have leaf: "isLeaf g y" by (simp add: isLeaf_def)
  from c(1) y(1) have ry: "(Root g, y) \<in> (edges g)\<^sup>*"
    by (auto intro: converse_rtrancl_into_rtrancl)
  have "dfsFind g (isLeaf g) [] [Root g] \<noteq> None"
    using dfsFind_None_reach[OF _ root closed ry, of "isLeaf g"] leaf by auto
  then obtain x where x: "dfsFind g (isLeaf g) [] [Root g] = Some x" by auto
  from dfsFind_Some[OF x] x show ?thesis
    by (simp add: getNextLeaf_def isLeaf_def)
qed

text \<open>Removing a leaf keeps the graph well formed; draining a well-formed graph succeeds.\<close>

lemma removeNode_lookup:
  assumes "removeNode g x = Inr g'"
  shows "lookup g' k =
     (if k = x then None
      else map_option (\<lambda>nd. nd\<lparr>children := removeAll x (children nd)\<rparr>) (lookup g k))"
    and "Root g' = Root g" and "x \<noteq> Root g" and "presentChildren g x = []"
proof -
  from assms have g': "g' = g\<lparr>Nodes :=
             map (\<lambda>(i, nd). (i, nd\<lparr>children := removeAll x (children nd)\<rparr>))
               (AList.delete x (Nodes g))\<rparr>"
    and x: "x \<noteq> Root g" "presentChildren g x = []"
    by (auto simp: removeNode_def split: if_splits)
  have "map_of (map (\<lambda>(i, nd). (i, f nd)) al) k = map_option f (map_of al k)"
    for f :: "node \<Rightarrow> node" and al :: "(ident \<times> node) list"
    by (induction al) auto
  then show "lookup g' k =
     (if k = x then None
      else map_option (\<lambda>nd. nd\<lparr>children := removeAll x (children nd)\<rparr>) (lookup g k))"
    by (simp add: g' lookup_def delete_conv')
  from g' x show "Root g' = Root g" "x \<noteq> Root g" "presentChildren g x = []" by simp_all
qed

lemma removeNode_keys:
  assumes "removeNode g x = Inr g'"
  shows "keys g' = keys g - {x}"
proof -
  have "k \<in> keys g' \<longleftrightarrow> k \<in> keys g - {x}" for k
    using removeNode_lookup(1)[OF assms, of k] lookup_None_iff[of g' k] lookup_None_iff[of g k]
    by (auto split: if_splits)
  then show ?thesis by blast
qed

lemma removeNode_payload:
  assumes "removeNode g x = Inr g'" and "k \<noteq> x"
  shows "payload g' k = payload g k"
  using removeNode_lookup(1)[OF assms(1), of k] assms(2)
  by (auto simp: payload_def split: option.splits)

lemma removeNode_edges:
  assumes "removeNode g x = Inr g'"
  shows "edges g' = {(p, c) \<in> edges g. p \<noteq> x \<and> c \<noteq> x}"
  using removeNode_lookup(1)[OF assms]
  by (auto simp: edges_def split: if_splits)

lemma leaf_no_edges:
  assumes closed: "\<forall>(p, c) \<in> edges g. c \<in> keys g" and "presentChildren g x = []"
  shows "(x, c) \<notin> edges g"
proof
  assume "(x, c) \<in> edges g"
  then obtain nd where nd: "lookup g x = Some nd" "c \<in> set (children nd)"
    by (auto simp: edges_def)
  with presentChildren_closed[OF closed nd(1)] assms(2) show False by simp
qed

lemma removeNode_wellFormed:
  assumes wf: "wellFormed g" and rm: "removeNode g x = Inr g'"
  shows "wellFormed g'"
proof -
  note lk = removeNode_lookup[OF rm]
  note ks = removeNode_keys[OF rm]
  note es = removeNode_edges[OF rm]
  from wf have closed: "\<forall>(p, c) \<in> edges g. c \<in> keys g" by (simp add: wellFormed_def)
  note noout = leaf_no_edges[OF closed lk(4)]
  from rm have nodes: "Nodes g' = map (\<lambda>(i, nd). (i, nd\<lparr>children := removeAll x (children nd)\<rparr>))
               (AList.delete x (Nodes g))"
    by (auto simp: removeNode_def split: if_splits)
  have "map fst (Nodes g') = map fst (AList.delete x (Nodes g))"
    unfolding nodes by (induction "AList.delete x (Nodes g)") auto
  with wf have d: "distinct (map fst (Nodes g'))"
    by (simp add: wellFormed_def distinct_delete)
  from wf lk ks have r: "Root g' \<in> keys g'" by (simp add: wellFormed_def)
  from closed es ks have c: "\<forall>(p, c) \<in> edges g'. c \<in> keys g'" by auto
  from wf have "acyclic (edges g)" by (simp add: wellFormed_def)
  then have a: "acyclic (edges g')"
    by (rule acyclic_subset) (auto simp: es)
  have reach: "(Root g', k) \<in> (edges g')\<^sup>*" if "k \<in> keys g'" for k
  proof -
    from that ks wf have "(Root g, k) \<in> (edges g)\<^sup>*" and "k \<noteq> x"
      by (auto simp: wellFormed_def)
    then have "(Root g, k) \<in> (edges g')\<^sup>*"
    proof (induction rule: rtrancl_induct)
      case base
      show ?case by simp
    next
      case (step y z)
      from step(2) noout have "y \<noteq> x" by auto
      with step have "(Root g, y) \<in> (edges g')\<^sup>*" and "(y, z) \<in> edges g'"
        by (auto simp: es)
      then show ?case by (rule rtrancl_into_rtrancl)
    qed
    with lk show ?thesis by simp
  qed
  have p: "\<forall>k \<in> keys g'. (payload g' k = None) = (k = Root g')"
    using wf removeNode_payload[OF rm] lk(2) ks by (auto simp: wellFormed_def)
  from d r c a reach p show ?thesis
    by (auto simp: wellFormed_def)
qed

lemma precedes_Cons_same: "y \<in> set xs \<Longrightarrow> precedes x y (x # xs)"
  by (simp add: precedes_def)

lemma precedes_Cons_other: "z \<noteq> x \<Longrightarrow> precedes x y xs \<Longrightarrow> precedes x y (z # xs)"
  by (simp add: precedes_def)

lemma drainQueue_wellFormed:
  "wellFormed g \<Longrightarrow>
     \<exists>L ks g'. drainQueue g acc = (Inr (acc @ L), g')
       \<and> map Some L = map (payload g) ks
       \<and> distinct ks \<and> set ks = keys g - {Root g}
       \<and> (\<forall>(p, c) \<in> edges g. p \<noteq> Root g \<longrightarrow> precedes c p ks)
       \<and> keys g' = {Root g}"
proof (induction g acc rule: drainQueue.induct)
  case (1 g acc)
  note wf = "1.prems"
  show ?case
  proof (cases "length (Nodes g) > 1")
    case False
    from wellFormed_only_root[OF wf False] have k: "keys g = {Root g}" .
    from False have "drainQueue g acc = (Inr (acc @ []), g)"
      by (subst drainQueue.simps) simp
    moreover have "\<forall>(p, c) \<in> edges g. p \<noteq> Root g \<longrightarrow> precedes c p []"
      using k by (auto dest: edges_source)
    ultimately show ?thesis using k
      by (intro exI[of _ "[]"] exI[of _ g]) simp
  next
    case True
    define nxt where "nxt = getNextLeaf g (Root g)"
    from wellFormed_other_key[OF wf True] obtain k where "k \<in> keys g" "k \<noteq> Root g" by blast
    from getNextLeaf_leaf[OF wf this]
    have nr: "nxt \<noteq> Root g" and nk: "nxt \<in> keys g" and leaf: "presentChildren g nxt = []"
      by (simp_all add: nxt_def)
    from nk obtain nd where nd: "lookup g nxt = Some nd"
      using lookup_None_iff[of g nxt] by auto
    from wf nk nr nd obtain d where d: "Data nd = Some d"
      by (auto simp: wellFormed_def payload_def)
    from nr leaf obtain g1 where rm: "removeNode g nxt = Inr g1"
      by (auto simp: removeNode_def)
    note wf1 = removeNode_wellFormed[OF wf rm]
    from "1.IH"[OF True nxt_def nr nd d rm wf1]
    obtain L ks g' where
      run: "drainQueue g1 (acc @ [d]) = (Inr ((acc @ [d]) @ L), g')"
      and pl: "map Some L = map (payload g1) ks"
      and dist: "distinct ks" and set: "set ks = keys g1 - {Root g1}"
      and ord: "\<forall>(p, c) \<in> edges g1. p \<noteq> Root g1 \<longrightarrow> precedes c p ks"
      and fin: "keys g' = {Root g1}"
      by blast
    note lk = removeNode_lookup[OF rm]
    note ks = removeNode_keys[OF rm]
    from wf have closed: "\<forall>(p, c) \<in> edges g. c \<in> keys g" by (simp add: wellFormed_def)
    have "drainQueue g acc = drainQueue g1 (acc @ [d])"
      using True nr nd d rm by (subst drainQueue.simps) (simp add: nxt_def Let_def)
    with run have 1: "drainQueue g acc = (Inr (acc @ (d # L)), g')" by simp
    have 2: "map Some (d # L) = map (payload g) (nxt # ks)"
      using pl nd d set ks removeNode_payload[OF rm]
      by (auto simp: payload_def)
    have 3: "distinct (nxt # ks)" using dist set ks by auto
    have 4: "set (nxt # ks) = keys g - {Root g}" using set ks lk(2) nk nr by auto
    have 5: "\<forall>(p, c) \<in> edges g. p \<noteq> Root g \<longrightarrow> precedes c p (nxt # ks)"
    proof (clarify)
      fix p c assume e: "(p, c) \<in> edges g" and pr: "p \<noteq> Root g"
      from e leaf_no_edges[OF closed leaf] have pn: "p \<noteq> nxt" by auto
      show "precedes c p (nxt # ks)"
      proof (cases "c = nxt")
        case True
        from e pr pn set ks lk(2) have "p \<in> set ks" by (auto dest: edges_source)
        with True show ?thesis by (simp add: precedes_Cons_same)
      next
        case False
        with e pn have "(p, c) \<in> edges g1" by (simp add: removeNode_edges[OF rm])
        with ord pr lk(2) have "precedes c p ks" by auto
        with False show ?thesis by (simp add: precedes_Cons_other)
      qed
    qed
    from 1 2 3 4 5 fin lk(2) show ?thesis
      by (intro exI[of _ "d # L"] exI[of _ "nxt # ks"] exI[of _ g']) simp
  qed
qed

text \<open>The traversal keeps the graph well formed.\<close>

lemma wellFormed_payload_eq:
  assumes "\<And>k. payload g' k = payload g k" and "keys g' = keys g" and "Root g' = Root g"
    and "\<forall>k \<in> keys g. (payload g k = None) = (k = Root g)"
  shows "\<forall>k \<in> keys g'. (payload g' k = None) = (k = Root g')"
  using assms by simp

lemma addEdge_wellFormed:
  assumes wf: "wellFormed g" and ae: "addEdge g a b = Inr g'"
  shows "wellFormed g'"
proof -
  from ae obtain src dst where src: "lookup g a = Some src" and dst: "lookup g b = Some dst"
    and np: "\<not> hasPath g b a"
    and g': "g' = (if b \<in> set (children src) then g
                   else g\<lparr>Nodes := AList.update a (src\<lparr>children := children src @ [b]\<rparr>) (Nodes g)\<rparr>)"
    by (auto simp: addEdge_def split: option.splits if_splits)
  note ks = addEdge_keys[OF ae]
  note es = addEdge_edges[OF ae]
  from g' have root: "Root g' = Root g" by (simp split: if_splits)
  from wf have closed: "\<forall>(p, c) \<in> edges g. c \<in> keys g" and acyc: "acyclic (edges g)"
    by (simp_all add: wellFormed_def)
  from dst have bk: "b \<in> keys g" by (rule lookup_Some_keys)
  have d: "distinct (map fst (Nodes g'))"
    using wf g' by (auto simp: wellFormed_def distinct_update)
  have r: "Root g' \<in> keys g'" using wf ks root by (simp add: wellFormed_def)
  have c: "\<forall>(p, c) \<in> edges g'. c \<in> keys g'"
    using closed bk by (auto simp: es ks)
  have "(b, a) \<notin> (edges g)\<^sup>*"
  proof
    assume ba: "(b, a) \<in> (edges g)\<^sup>*"
    from np have "dfsFind g (\<lambda>x. x = a) [] [b] = None" by (simp add: hasPath_def)
    from dfsFind_None_reach[OF this bk closed ba] show False by simp
  qed
  with acyc have a: "acyclic (edges g')" by (simp add: es acyclic_insert)
  have reach: "\<forall>k \<in> keys g'. (Root g', k) \<in> (edges g')\<^sup>*"
  proof
    fix k assume "k \<in> keys g'"
    with wf ks have "(Root g, k) \<in> (edges g)\<^sup>*" by (simp add: wellFormed_def)
    moreover have "(edges g)\<^sup>* \<subseteq> (edges g')\<^sup>*" by (rule rtrancl_mono) (auto simp: es)
    ultimately show "(Root g', k) \<in> (edges g')\<^sup>*" using root by auto
  qed
  have "payload g' k = payload g k" for k
    using src g' by (auto simp: payload_def lookup_update split: option.splits)
  from wellFormed_payload_eq[OF this ks root] wf
  have p: "\<forall>k \<in> keys g'. (payload g' k = None) = (k = Root g')"
    by (simp add: wellFormed_def)
  from d r c a reach p show ?thesis by (simp add: wellFormed_def)
qed

lemma insertNodeAt_wellFormed:
  assumes wf: "wellFormed g" and ins: "insertNodeAt g p k d = Inr g'"
  shows "wellFormed g'"
proof -
  from insertNodeAt_lookup[OF ins] obtain parent where par: "lookup g p = Some parent"
    and fresh: "lookup g k = None"
    and lk: "lookup g' = (lookup g)(p \<mapsto> parent\<lparr>children := children parent @ [k]\<rparr>,
                               k \<mapsto> newNode (Some d))"
    by blast
  from ins par fresh have g': "g' = g\<lparr>Nodes :=
                 AList.update p (parent\<lparr>children := children parent @ [k]\<rparr>) (Nodes g)
                 @ [(k, newNode (Some d))]\<rparr>"
    by (auto simp: insertNodeAt_def)
  note ks = insertNodeAt_keys[OF ins]
  note es = insertNodeAt_edges[OF ins]
  from g' have root: "Root g' = Root g" by simp
  from fresh have kn: "k \<notin> keys g" by (simp add: lookup_None_iff)
  from par have pk: "p \<in> keys g" by (rule lookup_Some_keys)
  from wf have closed: "\<forall>(p, c) \<in> edges g. c \<in> keys g" and acyc: "acyclic (edges g)"
    and rk: "Root g \<in> keys g"
    by (simp_all add: wellFormed_def)
  from pk have "map fst (AList.update p (parent\<lparr>children := children parent @ [k]\<rparr>) (Nodes g))
      = map fst (Nodes g)"
    by (simp add: update_keys keys_def)
  with wf kn have d: "distinct (map fst (Nodes g'))"
    by (simp add: g' wellFormed_def keys_def)
  have r: "Root g' \<in> keys g'" using rk ks root by simp
  have c: "\<forall>(p, c) \<in> edges g'. c \<in> keys g'"
    using closed by (auto simp: es ks)
  have "(k, p) \<notin> (edges g)\<^sup>*"
  proof
    assume "(k, p) \<in> (edges g)\<^sup>*"
    then show False
    proof (cases rule: converse_rtranclE)
      case base
      with kn pk show False by simp
    next
      case (step y)
      with kn show False by (auto dest: edges_source)
    qed
  qed
  with acyc have a: "acyclic (edges g')" by (simp add: es acyclic_insert)
  have mono: "(edges g)\<^sup>* \<subseteq> (edges g')\<^sup>*" by (rule rtrancl_mono) (auto simp: es)
  have reach: "\<forall>x \<in> keys g'. (Root g', x) \<in> (edges g')\<^sup>*"
  proof
    fix x assume x: "x \<in> keys g'"
    show "(Root g', x) \<in> (edges g')\<^sup>*"
    proof (cases "x = k")
      case True
      from wf pk have "(Root g, p) \<in> (edges g)\<^sup>*" by (simp add: wellFormed_def)
      with mono have "(Root g, p) \<in> (edges g')\<^sup>*" by auto
      moreover have "(p, k) \<in> edges g'" by (simp add: es)
      ultimately show ?thesis using True root by (auto intro: rtrancl_into_rtrancl)
    next
      case False
      with x ks wf have "(Root g, x) \<in> (edges g)\<^sup>*" by (simp add: wellFormed_def)
      with mono root show ?thesis by auto
    qed
  qed
  have p: "\<forall>x \<in> keys g'. (payload g' x = None) = (x = Root g')"
  proof
    fix x assume x: "x \<in> keys g'"
    show "(payload g' x = None) = (x = Root g')"
    proof (cases "x = k")
      case True
      with kn rk root show ?thesis by (auto simp: payload_def lk newNode_def)
    next
      case False
      with x ks have xk: "x \<in> keys g" by simp
      have "payload g' x = payload g x"
        using False par by (auto simp: payload_def lk)
      with wf xk root show ?thesis by (simp add: wellFormed_def)
    qed
  qed
  from d r c a reach p show ?thesis by (simp add: wellFormed_def)
qed

lemma newGraph_edges: "edges (newGraph rootID) = {}"
  by (auto simp: edges_def lookup_def newGraph_def newNode_def split: if_splits)

lemma newGraph_wellFormed: "wellFormed (newGraph rootID)"
proof -
  have "keys (newGraph rootID) = {rootID}" "Root (newGraph rootID) = rootID"
    "distinct (map fst (Nodes (newGraph rootID)))" "payload (newGraph rootID) rootID = None"
    by (simp_all add: newGraph_def keys_def payload_def lookup_def newNode_def)
  then show ?thesis
    by (simp add: wellFormed_def newGraph_edges acyclic_def)
qed

lemma addEdge_Root: "addEdge g a b = Inr g' \<Longrightarrow> Root g' = Root g"
  by (auto simp: addEdge_def split: option.splits if_splits)

lemma insertNodeAt_Root: "insertNodeAt g p k d = Inr g' \<Longrightarrow> Root g' = Root g"
  by (auto simp: insertNodeAt_def split: option.splits if_splits)

lemma resolveRecursive_wellFormed:
  assumes "wellFormed (DependencyGraph r)"
    and "resolveRecursive n E r basePath parentID dependencies update = Some (res, r')"
  shows "wellFormed (DependencyGraph r') \<and> Root (DependencyGraph r') = Root (DependencyGraph r)"
proof -
  define I where "I = (\<lambda>s :: run. wellFormed (DependencyGraph s)
                         \<and> Root (DependencyGraph s) = Root (DependencyGraph r))"
  have "case res of None \<Rightarrow> I r' | Some err \<Rightarrow> (\<lambda>e. I) err r'"
  proof (rule resolveRecursive_rule[where I = I and J = "\<lambda>e. I", OF _ _ _ _ _ _ assms(2)])
    show "I r" using assms(1) by (simp add: I_def)
  next
    fix s :: run and parentID depID g
    assume "I s" and ae: "addEdge (DependencyGraph s) parentID depID = Inr g"
    then show "I (s\<lparr>DependencyGraph := g, calls := calls s @ [AddEdgeCall parentID depID None]\<rparr>)"
      using addEdge_wellFormed[OF _ ae] addEdge_Root[OF ae] by (simp add: I_def)
  next
    fix s :: run and parentID depID dependency g
    assume "I s" and ins: "insertNodeAt (DependencyGraph s) parentID depID dependency = Inr g"
    then show "I (s\<lparr>calls := calls s @ [ResolveDependencyCall depID], DependencyGraph := g\<rparr>)"
      using insertNodeAt_wellFormed[OF _ ins] insertNodeAt_Root[OF ins] by (simp add: I_def)
  qed (simp_all add: I_def)
  then show ?thesis by (cases res) (auto simp: I_def)
qed

text \<open>
  C4. From a well-formed graph (the graph of a new resolver is one), when the descent and
  the save succeed, \<open>Resolve\<close> returns the payloads of the nodes of the completed graph other
  than the root, each once, in an order in which for every edge from a parent other than
  the root to a child, the child comes before the parent; the drained graph is left with
  the root alone.
\<close>

theorem Resolve_leaf_before_parent:
  assumes "wellFormed (DependencyGraph r)"
    and "Getwd E = Inr cwd"
    and "resolveRecursive n E r cwd (Root (DependencyGraph r)) (Dependencies (BaseConfig r)) update
           = Some (None, r1)"
    and "Save E (BaseCache r) = None"
  shows "\<exists>L ks r'.
           Resolve n E r update = Some (Inr L, r')
           \<and> map Some L = map (payload (DependencyGraph r1)) ks
           \<and> distinct ks
           \<and> set ks = keys (DependencyGraph r1) - {Root (DependencyGraph r1)}
           \<and> (\<forall>(p, c) \<in> edges (DependencyGraph r1).
                 p \<noteq> Root (DependencyGraph r1) \<longrightarrow> precedes c p ks)
           \<and> keys (DependencyGraph r') = {Root (DependencyGraph r1)}"
proof -
  from resolveRecursive_wellFormed[OF assms(1,3)]
  have wf1: "wellFormed (DependencyGraph r1)" by simp
  from resolveRecursive_frame[OF assms(3)] have c: "BaseCache r1 = BaseCache r"
    by (simp add: sameSettings_def)
  from drainQueue_wellFormed[OF wf1, of "[]"] obtain L ks g' where
    run: "drainQueue (DependencyGraph r1) [] = (Inr L, g')"
    and rest: "map Some L = map (payload (DependencyGraph r1)) ks"
      "distinct ks" "set ks = keys (DependencyGraph r1) - {Root (DependencyGraph r1)}"
      "\<forall>(p, c) \<in> edges (DependencyGraph r1).
                 p \<noteq> Root (DependencyGraph r1) \<longrightarrow> precedes c p ks"
      "keys g' = {Root (DependencyGraph r1)}"
    by auto
  from assms(2,3,4) c run
  have "Resolve n E r update
      = Some (Inr L, r1\<lparr>calls := calls r1 @ [SaveCall (BaseCache r1)], DependencyGraph := g'\<rparr>)"
    by (simp add: Resolve_def buildDependencyQueue_def Let_def)
  with rest show ?thesis
    by (intro exI[of _ L] exI[of _ ks]
          exI[of _ "r1\<lparr>calls := calls r1 @ [SaveCall (BaseCache r1)], DependencyGraph := g'\<rparr>"])
       simp
qed

theorem Resolve_leaf_before_parent_witness:
  "\<exists>L ks r1 r'.
     resolveRecursive 10 exampleEnv (exampleRun [''P'', ''Q'']) ''/work'' ''root''
       [dependsOn ''P'', dependsOn ''Q''] False = Some (None, r1)
     \<and> (''P'', ''R'') \<in> edges (DependencyGraph r1)
     \<and> (''Q'', ''R'') \<in> edges (DependencyGraph r1)
     \<and> Resolve 10 exampleEnv (exampleRun [''P'', ''Q'']) False = Some (Inr L, r')
     \<and> map ID L = [''R'', ''P'', ''Q'']
     \<and> map Some L = map (payload (DependencyGraph r1)) ks
     \<and> set ks = {''P'', ''Q'', ''R''}
     \<and> precedes ''R'' ''P'' ks
     \<and> precedes ''R'' ''Q'' ks"
proof -
  let ?r = "exampleRun [''P'', ''Q'']"
  have "\<exists>r1. resolveRecursive 10 exampleEnv ?r ''/work'' ''root''
       [dependsOn ''P'', dependsOn ''Q''] False = Some (None, r1)
     \<and> (''P'', ''R'') \<in> edges (DependencyGraph r1)
     \<and> (''Q'', ''R'') \<in> edges (DependencyGraph r1)
     \<and> map fst (Nodes (DependencyGraph r1)) = [''root'', ''P'', ''R'', ''Q'']
     \<and> Root (DependencyGraph r1) = ''root''"
    by (simp add: run_eval edges_def)
  then obtain r1 where
    desc: "resolveRecursive 10 exampleEnv ?r ''/work'' ''root''
       [dependsOn ''P'', dependsOn ''Q''] False = Some (None, r1)"
    and e1: "(''P'', ''R'') \<in> edges (DependencyGraph r1)"
    and e2: "(''Q'', ''R'') \<in> edges (DependencyGraph r1)"
    and ks: "keys (DependencyGraph r1) = {''root'', ''P'', ''R'', ''Q''}"
    and root: "Root (DependencyGraph r1) = ''root''"
    by (auto simp: keys_def)
  have wf: "wellFormed (DependencyGraph ?r)"
    by (simp add: exampleRun_def newGraph_wellFormed)
  have cwd: "Getwd exampleEnv = Inr ''/work''" and save: "Save exampleEnv (BaseCache ?r) = None"
    by (simp_all add: exampleEnv_def)
  have desc': "resolveRecursive 10 exampleEnv ?r ''/work'' (Root (DependencyGraph ?r))
      (Dependencies (BaseConfig ?r)) False = Some (None, r1)"
    using desc by (simp add: exampleRun_def newGraph_def)
  from Resolve_leaf_before_parent[OF wf cwd desc' save] obtain L ks r' where
    run: "Resolve 10 exampleEnv ?r False = Some (Inr L, r')"
    and pl: "map Some L = map (payload (DependencyGraph r1)) ks"
    and set: "set ks = keys (DependencyGraph r1) - {Root (DependencyGraph r1)}"
    and ord: "\<forall>(p, c) \<in> edges (DependencyGraph r1).
                 p \<noteq> Root (DependencyGraph r1) \<longrightarrow> precedes c p ks"
    by blast
  have "map_option (map_sum id (map ID) \<circ> fst) (Resolve 10 exampleEnv ?r False)
      = Some (Inr [''R'', ''P'', ''Q''])"
    by (simp add: run_eval)
  with run have ids: "map ID L = [''R'', ''P'', ''Q'']" by simp
  from ord e1 root have p1: "precedes ''R'' ''P'' ks" by fastforce
  from ord e2 root have p2: "precedes ''R'' ''Q'' ks" by fastforce
  from set ks root have s: "set ks = {''P'', ''Q'', ''R''}" by auto
  show ?thesis
    by (rule exI[of _ L], rule exI[of _ ks], rule exI[of _ r1], rule exI[of _ r'])
       (intro conjI desc e1 e2 run ids pl s p1 p2)
qed

text \<open>Payloads under the operations of the traversal.\<close>

lemma addEdge_payload: "addEdge g a b = Inr g' \<Longrightarrow> payload g' k = payload g k"
  by (auto simp: addEdge_def payload_def lookup_update split: option.splits if_splits)

lemma insertNodeAt_payload:
  assumes "insertNodeAt g p k d = Inr g'"
  shows "payload g' = (payload g)(k \<mapsto> d)"
proof -
  from insertNodeAt_lookup[OF assms] obtain parent where par: "lookup g p = Some parent"
    and lk: "lookup g' = (lookup g)(p \<mapsto> parent\<lparr>children := children parent @ [k]\<rparr>,
                               k \<mapsto> newNode (Some d))"
    by blast
  have "payload g' x = ((payload g)(k \<mapsto> d)) x" for x
    using par by (auto simp: payload_def lk newNode_def)
  then show ?thesis by blast
qed

lemma resolveRecursive_shares_base_cache:
  assumes "\<forall>k d. payload (DependencyGraph r) k = Some d \<longrightarrow> DependencyCache d = BaseCache r"
    and "resolveRecursive n E r basePath parentID dependencies update = Some (res, r')"
  shows "\<forall>k d. payload (DependencyGraph r') k = Some d \<longrightarrow> DependencyCache d = BaseCache r"
proof -
  define I where "I = (\<lambda>s :: run. BaseCache s = BaseCache r
     \<and> (\<forall>k d. payload (DependencyGraph s) k = Some d \<longrightarrow> DependencyCache d = BaseCache r))"
  have "case res of None \<Rightarrow> I r' | Some err \<Rightarrow> (\<lambda>e. I) err r'"
  proof (rule resolveRecursive_rule[where I = I and J = "\<lambda>e. I", OF _ _ _ _ _ _ assms(2)])
    show "I r" using assms(1) by (simp add: I_def)
  next
    fix s :: run and parentID depID g
    assume "I s" and ae: "addEdge (DependencyGraph s) parentID depID = Inr g"
    then show "I (s\<lparr>DependencyGraph := g, calls := calls s @ [AddEdgeCall parentID depID None]\<rparr>)"
      by (simp add: I_def addEdge_payload[OF ae])
  next
    fix s :: run and parentID depID basePath dc update dependency g
    assume i: "I s"
      and rd: "resolveDependency E (s\<lparr>calls := calls s @ [ResolveDependencyCall depID]\<rparr>)
            basePath dc update = Inr dependency"
      and ins: "insertNodeAt (DependencyGraph s) parentID depID dependency = Inr g"
    from rd have "DependencyCache dependency = BaseCache s"
      by (elim resolveDependency_InrE) simp
    with i show "I (s\<lparr>calls := calls s @ [ResolveDependencyCall depID], DependencyGraph := g\<rparr>)"
      by (simp add: I_def insertNodeAt_payload[OF ins])
  qed (simp_all add: I_def)
  then show ?thesis by (cases res) (auto simp: I_def)
qed

text \<open>
  C10. A Dependency returned by \<open>resolveDependency\<close> holds in \<open>DependencyCache\<close> the very
  address the resolver holds in \<open>BaseCache\<close>, and the cloned options its configuration was
  loaded with point at that same address. So when every payload of the graph shares the
  base cache of the resolver before a descent, every payload does after it.
\<close>

theorem resolveDependency_shares_base_cache:
  "(resolveDependency E r basePath dependency update = Inr d \<longrightarrow>
      DependencyCache d = BaseCache r
      \<and> (\<exists>cloned0.
            Clone E (ConfigOptions r) = Inr cloned0
            \<and> ConfigOptions.GeneratedConfig (clonedOptions E r dependency (LocalPath d) cloned0)
                = BaseCache r
            \<and> map_sum id (overrideConfig dependency)
                 (loadConfig E (clonedOptions E r dependency (LocalPath d) cloned0))
                = Inr (Config d)))
   \<and> ((\<forall>k x. payload (DependencyGraph r0) k = Some x \<longrightarrow> DependencyCache x = BaseCache r0)
        \<and> resolveRecursive n E r0 basePath0 parentID dependencies update0 = Some (res, r1)
      \<longrightarrow> (\<forall>k x. payload (DependencyGraph r1) k = Some x \<longrightarrow> DependencyCache x = BaseCache r0))"
proof (intro conjI impI)
  assume a: "resolveDependency E r basePath dependency update = Inr d"
  then show "DependencyCache d = BaseCache r"
    by (elim resolveDependency_InrE) simp
  from a show "\<exists>cloned0.
            Clone E (ConfigOptions r) = Inr cloned0
            \<and> ConfigOptions.GeneratedConfig (clonedOptions E r dependency (LocalPath d) cloned0)
                = BaseCache r
            \<and> map_sum id (overrideConfig dependency)
                 (loadConfig E (clonedOptions E r dependency (LocalPath d) cloned0))
                = Inr (Config d)"
    by (elim resolveDependency_InrE) (simp add: clonedOptions_def Let_def)
next
  assume "(\<forall>k x. payload (DependencyGraph r0) k = Some x \<longrightarrow> DependencyCache x = BaseCache r0)
        \<and> resolveRecursive n E r0 basePath0 parentID dependencies update0 = Some (res, r1)"
  then show "\<forall>k x. payload (DependencyGraph r1) k = Some x \<longrightarrow> DependencyCache x = BaseCache r0"
    using resolveRecursive_shares_base_cache[of r0 n E basePath0 parentID dependencies update0 res r1]
    by blast
qed

theorem resolveDependency_shares_base_cache_witness:
  "map_sum id DependencyCache
     (resolveDependency exampleEnv (exampleRun []) ''/work'' (dependsOn ''P'') False)
     = Inr (BaseCache (exampleRun []))
   \<and> ConfigOptions.GeneratedConfig
       (clonedOptions exampleEnv (exampleRun []) (dependsOn ''P'') ''/deps/P''
          (ConfigOptions (exampleRun []))) = BaseCache (exampleRun [])
   \<and> (\<exists>r1 p q x.
        resolveRecursive 10 exampleEnv (exampleRun [''P'', ''Q'']) ''/work'' ''root''
          [dependsOn ''P'', dependsOn ''Q''] False = Some (None, r1)
        \<and> payload (DependencyGraph r1) ''P'' = Some p
        \<and> payload (DependencyGraph r1) ''Q'' = Some q
        \<and> payload (DependencyGraph r1) ''R'' = Some x
        \<and> DependencyCache p = BaseCache (exampleRun [''P'', ''Q''])
        \<and> DependencyCache q = DependencyCache p
        \<and> DependencyCache x = DependencyCache p)"
proof -
  obtain d where d: "resolveDependency exampleEnv (exampleRun []) ''/work''
        (dependsOn ''P'') False = Inr d" and l: "LocalPath d = ''/deps/P''"
    by (simp add: materializer_eval example_eval)
  from resolveDependency_shares_base_cache[where E = exampleEnv and r = "exampleRun []"
      and basePath = "''/work''" and dependency = "dependsOn ''P''" and update = False and d = d,
      THEN conjunct1, THEN mp, OF d] l
  have "DependencyCache d = BaseCache (exampleRun [])
     \<and> ConfigOptions.GeneratedConfig
       (clonedOptions exampleEnv (exampleRun []) (dependsOn ''P'') ''/deps/P''
          (ConfigOptions (exampleRun []))) = BaseCache (exampleRun [])"
    by (auto simp: exampleEnv_def)
  then have 1: "map_sum id DependencyCache
     (resolveDependency exampleEnv (exampleRun []) ''/work'' (dependsOn ''P'') False)
     = Inr (BaseCache (exampleRun []))
   \<and> ConfigOptions.GeneratedConfig
       (clonedOptions exampleEnv (exampleRun []) (dependsOn ''P'') ''/deps/P''
          (ConfigOptions (exampleRun []))) = BaseCache (exampleRun [])"
    by (simp add: d)
  let ?r = "exampleRun [''P'', ''Q'']"
  have "\<exists>r1 p q x. resolveRecursive 10 exampleEnv ?r ''/work'' ''root''
          [dependsOn ''P'', dependsOn ''Q''] False = Some (None, r1)
        \<and> payload (DependencyGraph r1) ''P'' = Some p
        \<and> payload (DependencyGraph r1) ''Q'' = Some q
        \<and> payload (DependencyGraph r1) ''R'' = Some x"
    by (simp add: run_eval payload_def)
  then obtain r1 p q x where
    desc: "resolveRecursive 10 exampleEnv ?r ''/work'' ''root''
          [dependsOn ''P'', dependsOn ''Q''] False = Some (None, r1)"
    and pl: "payload (DependencyGraph r1) ''P'' = Some p"
      "payload (DependencyGraph r1) ''Q'' = Some q"
      "payload (DependencyGraph r1) ''R'' = Some x"
    by blast
  have start: "\<forall>k x. payload (DependencyGraph ?r) k = Some x \<longrightarrow> DependencyCache x = BaseCache ?r"
    by (simp add: exampleRun_def payload_def lookup_def newGraph_def newNode_def)
  from resolveDependency_shares_base_cache[where ?r0.0 = ?r and n = 10 and E = exampleEnv
      and ?basePath0.0 = "''/work''" and parentID = "''root''"
      and dependencies = "[dependsOn ''P'', dependsOn ''Q'']" and ?update0.0 = False
      and res = None and ?r1.0 = r1,
      THEN conjunct2, THEN mp, OF conjI[OF start desc]] pl
  have "DependencyCache p = BaseCache ?r" "DependencyCache q = BaseCache ?r"
    "DependencyCache x = BaseCache ?r"
    by blast+
  with desc pl have 2: "\<exists>r1 p q x.
        resolveRecursive 10 exampleEnv (exampleRun [''P'', ''Q'']) ''/work'' ''root''
          [dependsOn ''P'', dependsOn ''Q''] False = Some (None, r1)
        \<and> payload (DependencyGraph r1) ''P'' = Some p
        \<and> payload (DependencyGraph r1) ''Q'' = Some q
        \<and> payload (DependencyGraph r1) ''R'' = Some x
        \<and> DependencyCache p = BaseCache (exampleRun [''P'', ''Q''])
        \<and> DependencyCache q = DependencyCache p
        \<and> DependencyCache x = DependencyCache p"
    by (intro exI[of _ r1] exI[of _ p] exI[of _ q] exI[of _ x]) simp
  from 1 2 show ?thesis by (intro conjI) (simp_all only:)
qed

end
